theory Spec2Isabelle
  imports
    Main
    "HOL-Library.Word"
    "HOL-Library.Multiset"
    "HOL-Library.List_Lexorder"
    "HOL-Library.Char_ord"
begin

section \<open>Data models\<close>

text \<open>
  The two classes of \<^verbatim>\<open>main.cpp\<close>. The C++ \<^verbatim>\<open>int\<close> fields that are only stored and
  compared (ids, ages, goals, step counts) are modelled by their integer value; the two
  accumulators, \<^verbatim>\<open>points\<close> (\<^verbatim>\<open>int\<close>) and \<^verbatim>\<open>total_weekly_steps\<close> (\<^verbatim>\<open>long long\<close>), are
  machine words: their addition wraps, as the two's-complement target does where C++
  leaves signed overflow undefined.
  \<^verbatim>\<open>std::string\<close> is \<open>string\<close>, ordered lexicographically by byte value as
  \<^verbatim>\<open>std::less<std::string>\<close> does. The field \<^verbatim>\<open>id\<close> is called \<open>id_ind\<close>, since \<open>id\<close> is
  the identity function of HOL.
\<close>

record Individual =
  id_ind :: int
  name :: string
  age :: int
  daily_step_goal :: int
  weekly_step_count :: "int list"
  current_group_id :: string
  points :: "32 word"

record Group =
  group_id :: string
  group_name :: string
  member_ids :: "int list"
  weekly_group_goal :: int
  total_weekly_steps :: "64 word"

definition MAX_MEMBERS :: nat where
  "MAX_MEMBERS = 5"

text \<open>The constructors: a new individual is ungrouped with no points; a new group sorts
  its member ids and erases adjacent duplicates (\<^verbatim>\<open>std::sort\<close>, then \<^verbatim>\<open>std::unique\<close>).\<close>

definition Individual_ctor :: "int \<Rightarrow> string \<Rightarrow> int \<Rightarrow> int \<Rightarrow> int list \<Rightarrow> Individual" where
  "Individual_ctor i n a goal steps =
     \<lparr>id_ind = i, name = n, age = a, daily_step_goal = goal, weekly_step_count = steps,
      current_group_id = [], points = 0\<rparr>"

definition Group_ctor :: "string \<Rightarrow> string \<Rightarrow> int list \<Rightarrow> int \<Rightarrow> Group" where
  "Group_ctor gid gname mids goal =
     \<lparr>group_id = gid, group_name = gname, member_ids = remdups_adj (sort mids),
      weekly_group_goal = goal, total_weekly_steps = 0\<rparr>"

section \<open>The sorted-vector container (ConceptualBPlusTree)\<close>

text \<open>
  The container is the vector \<^verbatim>\<open>data\<close>; the comparator \<^verbatim>\<open>comp\<close> and the
  \<^verbatim>\<open>key_extractor\<close> are fixed at construction and are parameters here. An iterator or a
  pointer into the vector is an index; \<^verbatim>\<open>data.end()\<close> is \<open>length data\<close>, and
  \<^verbatim>\<open>nullptr\<close> is \<open>None\<close>.

  \<^verbatim>\<open>std::lower_bound\<close> is specified on a range partitioned by the predicate: it returns
  the first position whose element does not satisfy \<^verbatim>\<open>comp(key_extractor(obj), key)\<close>.
  That position is the length of the longest prefix satisfying it.
\<close>

definition find_insert_pos :: "('k \<Rightarrow> 'k \<Rightarrow> bool) \<Rightarrow> ('t \<Rightarrow> 'k) \<Rightarrow> 't list \<Rightarrow> 'k \<Rightarrow> nat" where
  "find_insert_pos cmp key_extractor data key =
     length (takeWhile (\<lambda>obj. cmp (key_extractor obj) key) data)"

definition insert_tree :: "('k \<Rightarrow> 'k \<Rightarrow> bool) \<Rightarrow> ('t \<Rightarrow> 'k) \<Rightarrow> 't list \<Rightarrow> 't \<Rightarrow> 't list" where
  "insert_tree cmp key_extractor data item =
     (let item_key = key_extractor item;
          it = find_insert_pos cmp key_extractor data item_key
      in if it \<noteq> length data \<and> \<not> cmp item_key (key_extractor (data ! it))
              \<and> \<not> cmp (key_extractor (data ! it)) item_key
         then data
         else take it data @ item # drop it data)"

text \<open>\<^verbatim>\<open>remove\<close> erases every element whose key is \<^verbatim>\<open>==\<close> to the given one and reports
  whether anything was erased.\<close>

definition remove_tree :: "('t \<Rightarrow> 'k) \<Rightarrow> 't list \<Rightarrow> 'k \<Rightarrow> bool \<times> 't list" where
  "remove_tree key_extractor data key =
     (let kept = filter (\<lambda>obj. key_extractor obj \<noteq> key) data
      in (length kept \<noteq> length data, kept))"

definition search_tree :: "('k \<Rightarrow> 'k \<Rightarrow> bool) \<Rightarrow> ('t \<Rightarrow> 'k) \<Rightarrow> 't list \<Rightarrow> 'k \<Rightarrow> nat option" where
  "search_tree cmp key_extractor data key =
     (let it = find_insert_pos cmp key_extractor data key
      in if it \<noteq> length data \<and> \<not> cmp key (key_extractor (data ! it))
              \<and> \<not> cmp (key_extractor (data ! it)) key
         then Some it
         else None)"

text \<open>What the C++ standard asks of a comparator: a strict weak ordering.\<close>

definition strict_weak_order :: "('k \<Rightarrow> 'k \<Rightarrow> bool) \<Rightarrow> bool" where
  "strict_weak_order cmp \<longleftrightarrow>
     (\<forall>a. \<not> cmp a a) \<and>
     (\<forall>a b c. cmp a b \<and> cmp b c \<longrightarrow> cmp a c) \<and>
     (\<forall>a b c. \<not> cmp a b \<and> \<not> cmp b a \<and> \<not> cmp b c \<and> \<not> cmp c b \<longrightarrow> \<not> cmp a c \<and> \<not> cmp c a)"

text \<open>The container's invariant: the vector is strictly increasing in its keys.\<close>

definition sorted_tree :: "('k \<Rightarrow> 'k \<Rightarrow> bool) \<Rightarrow> ('t \<Rightarrow> 'k) \<Rightarrow> 't list \<Rightarrow> bool" where
  "sorted_tree cmp key_extractor data \<longleftrightarrow>
     sorted_wrt (\<lambda>a b. cmp (key_extractor a) (key_extractor b)) data"

section \<open>The application state and its operations (StepTrackerApp)\<close>

text \<open>
  The state is the pair of containers: individuals keyed by \<open>id_ind\<close>, groups keyed by
  \<open>group_id\<close>, both under \<^verbatim>\<open>std::less\<close>. The file names and the CSV input and output
  (\<^verbatim>\<open>_load_data\<close>, \<^verbatim>\<open>_save_data\<close>) touch no stored object and are left out, and so
  is what the functions print. A function that returns \<^verbatim>\<open>false\<close> after printing an
  error message returns the kind of that error here, one kind for each message.
\<close>

record StepTrackerApp =
  individuals_tree :: "Individual list"
  groups_tree :: "Group list"

datatype error =
  AlreadyExists | DuplicateGroupId | TooManyMembers | NoValidMembers | NotFound
  | DeleteFailed | InconsistentState

definition add_person ::
  "int \<Rightarrow> string \<Rightarrow> int \<Rightarrow> int \<Rightarrow> int list \<Rightarrow> StepTrackerApp \<Rightarrow> error option \<times> StepTrackerApp" where
  "add_person i n a goal steps app =
     (if search_tree (<) id_ind (individuals_tree app) i \<noteq> None then (Some AlreadyExists, app)
      else (None, app\<lparr>individuals_tree :=
              insert_tree (<) id_ind (individuals_tree app) (Individual_ctor i n a goal steps)\<rparr>))"

text \<open>The test of the first loop of \<^verbatim>\<open>create_group\<close>: the candidate is kept when the
  individual is found and its \<^verbatim>\<open>current_group_id\<close> is empty.\<close>

definition valid_member :: "Individual list \<Rightarrow> int \<Rightarrow> bool" where
  "valid_member inds mid =
     (case search_tree (<) id_ind inds mid of
        None \<Rightarrow> False
      | Some i \<Rightarrow> current_group_id (inds ! i) = [])"

text \<open>The loop \<^verbatim>\<open>for (int mid : ids) { individual = search(mid); if (individual)
  individual->current_group_id = gid; }\<close>, which \<^verbatim>\<open>create_group\<close>, \<^verbatim>\<open>delete_group\<close>
  (with the empty string) and \<^verbatim>\<open>merge_groups\<close> each run.\<close>

fun set_members_group :: "string \<Rightarrow> int list \<Rightarrow> Individual list \<Rightarrow> Individual list" where
  "set_members_group gid [] inds = inds"
| "set_members_group gid (mid # mids) inds =
     set_members_group gid mids
       (case search_tree (<) id_ind inds mid of
          None \<Rightarrow> inds
        | Some i \<Rightarrow> inds[i := (inds ! i)\<lparr>current_group_id := gid\<rparr>])"

definition create_group ::
  "string \<Rightarrow> string \<Rightarrow> int list \<Rightarrow> int \<Rightarrow> StepTrackerApp \<Rightarrow> error option \<times> StepTrackerApp" where
  "create_group gid gname mids goal app =
     (if search_tree (<) group_id (groups_tree app) gid \<noteq> None then (Some DuplicateGroupId, app)
      else if length mids > MAX_MEMBERS then (Some TooManyMembers, app)
      else
        let actual_member_ids = filter (valid_member (individuals_tree app)) mids
        in if actual_member_ids = [] then (Some NoValidMembers, app)
           else (None,
                 app\<lparr>groups_tree :=
                        insert_tree (<) group_id (groups_tree app)
                          (Group_ctor gid gname actual_member_ids goal),
                     individuals_tree :=
                        set_members_group gid actual_member_ids (individuals_tree app)\<rparr>))"

subsection \<open>Ranking\<close>

text \<open>
  \<^verbatim>\<open>get_top_3\<close> collects pointers to the individuals whose last step count reaches their
  goal, sorts the pointers with \<^verbatim>\<open>std::sort\<close> and returns the first three. A pointer is
  an index into the vector. \<^verbatim>\<open>std::sort\<close> is library code: the standard promises a
  permutation of the input that is ordered by the comparator, and leaves the order of
  equivalent elements open (\<open>sorts\<close>). The sort is therefore a parameter of every
  function that calls it.
\<close>

definition sorts :: "('a \<Rightarrow> 'a \<Rightarrow> bool) \<Rightarrow> 'a list \<Rightarrow> 'a list \<Rightarrow> bool" where
  "sorts cmp xs ys \<longleftrightarrow> mset ys = mset xs \<and> sorted_wrt (\<lambda>a b. \<not> cmp b a) ys"

definition met_daily_goal :: "Individual \<Rightarrow> bool" where
  "met_daily_goal individual \<longleftrightarrow>
     weekly_step_count individual \<noteq> [] \<and>
     last (weekly_step_count individual) \<ge> daily_step_goal individual"

definition eligible_individuals :: "StepTrackerApp \<Rightarrow> nat list" where
  "eligible_individuals app =
     filter (\<lambda>p. met_daily_goal (individuals_tree app ! p)) [0..<length (individuals_tree app)]"

definition more_steps_today :: "Individual list \<Rightarrow> nat \<Rightarrow> nat \<Rightarrow> bool" where
  "more_steps_today inds a b \<longleftrightarrow>
     last (weekly_step_count (inds ! a)) > last (weekly_step_count (inds ! b))"

definition get_top_3 ::
  "((nat \<Rightarrow> nat \<Rightarrow> bool) \<Rightarrow> nat list \<Rightarrow> nat list) \<Rightarrow> StepTrackerApp \<Rightarrow> nat list" where
  "get_top_3 std_sort app =
     (let sorted_eligible =
            std_sort (more_steps_today (individuals_tree app)) (eligible_individuals app)
      in if sorted_eligible = [] then []
         else take (min 3 (length sorted_eligible)) sorted_eligible)"

text \<open>The nested loops that sum the weekly steps of a group's members into a
  \<^verbatim>\<open>long long\<close>.\<close>

definition add_member_steps :: "Individual list \<Rightarrow> 64 word \<Rightarrow> int \<Rightarrow> 64 word" where
  "add_member_steps inds tot member_id =
     (case search_tree (<) id_ind inds member_id of
        None \<Rightarrow> tot
      | Some i \<Rightarrow>
          if weekly_step_count (inds ! i) \<noteq> []
          then foldl (\<lambda>t steps. t + of_int steps) tot (weekly_step_count (inds ! i))
          else tot)"

definition total_group_steps :: "Individual list \<Rightarrow> int list \<Rightarrow> 64 word" where
  "total_group_steps inds mids = foldl (add_member_steps inds) 0 mids"

definition check_group_achievement ::
  "string \<Rightarrow> StepTrackerApp \<Rightarrow> (error + bool) \<times> StepTrackerApp" where
  "check_group_achievement gid app =
     (case search_tree (<) group_id (groups_tree app) gid of
        None \<Rightarrow> (Inl NotFound, app)
      | Some g \<Rightarrow>
          let grp = groups_tree app ! g;
              tot = total_group_steps (individuals_tree app) (member_ids grp);
              app' = app\<lparr>groups_tree := (groups_tree app)[g := grp\<lparr>total_weekly_steps := tot\<rparr>]\<rparr>
          in (Inr (sint tot \<ge> weekly_group_goal grp), app'))"

text \<open>\<^verbatim>\<open>generate_leader_board\<close> only prints; the model returns the ranking it prints, as
  pairs of a pointer to the group and its total.\<close>

definition generate_leader_board ::
  "((nat \<times> 64 word \<Rightarrow> nat \<times> 64 word \<Rightarrow> bool) \<Rightarrow> (nat \<times> 64 word) list \<Rightarrow> (nat \<times> 64 word) list)
   \<Rightarrow> StepTrackerApp \<Rightarrow> (nat \<times> 64 word) list" where
  "generate_leader_board std_sort app =
     std_sort (\<lambda>a b. sint (snd a) > sint (snd b))
       (map (\<lambda>g. (g, total_group_steps (individuals_tree app) (member_ids (groups_tree app ! g))))
          [0..<length (groups_tree app)])"

text \<open>The search for the rank: the index of the first of the top three whose id is the
  given one, or \<open>-1\<close>.\<close>

fun find_rank :: "Individual list \<Rightarrow> int \<Rightarrow> nat list \<Rightarrow> int \<Rightarrow> int" where
  "find_rank inds individual_id [] i = -1"
| "find_rank inds individual_id (p # ps) i =
     (if id_ind (inds ! p) = individual_id then i
      else find_rank inds individual_id ps (i + 1))"

text \<open>\<^verbatim>\<open>rewards_map[found_rank]\<close>; \<^verbatim>\<open>operator[]\<close> of \<^verbatim>\<open>std::map\<close> yields 0 for a key
  that is not in the map.\<close>

definition rewards_map :: "int \<Rightarrow> 32 word" where
  "rewards_map r = (if r = 0 then 100 else if r = 1 then 75 else if r = 2 then 50 else 0)"

text \<open>The result is \<open>Inl NotFound\<close>, or \<open>Inr None\<close> when the individual is not among
  the top three, or \<open>Inr (Some points_earned)\<close>.\<close>

definition check_individual_rewards ::
  "((nat \<Rightarrow> nat \<Rightarrow> bool) \<Rightarrow> nat list \<Rightarrow> nat list) \<Rightarrow> int \<Rightarrow> StepTrackerApp
   \<Rightarrow> (error + 32 word option) \<times> StepTrackerApp" where
  "check_individual_rewards std_sort individual_id app =
     (case search_tree (<) id_ind (individuals_tree app) individual_id of
        None \<Rightarrow> (Inl NotFound, app)
      | Some i \<Rightarrow>
          let top_3_individuals = get_top_3 std_sort app;
              found_rank = find_rank (individuals_tree app) individual_id top_3_individuals 0
          in if found_rank \<noteq> -1
             then
               let points_earned = rewards_map found_rank;
                   individual = individuals_tree app ! i
               in (Inr (Some points_earned),
                   app\<lparr>individuals_tree :=
                         (individuals_tree app)
                           [i := individual\<lparr>points := points individual + points_earned\<rparr>]\<rparr>)
             else (Inr None, app))"

subsection \<open>Deleting and merging\<close>

definition delete_individual :: "int \<Rightarrow> StepTrackerApp \<Rightarrow> error option \<times> StepTrackerApp" where
  "delete_individual individual_id app =
     (case search_tree (<) id_ind (individuals_tree app) individual_id of
        None \<Rightarrow> (Some NotFound, app)
      | Some i \<Rightarrow>
          let individual = individuals_tree app ! i;
              groups' =
                (if current_group_id individual \<noteq> [] then
                   (case search_tree (<) group_id (groups_tree app) (current_group_id individual) of
                      None \<Rightarrow> groups_tree app
                    | Some g \<Rightarrow>
                        (groups_tree app)
                          [g := (groups_tree app ! g)
                             \<lparr>member_ids := removeAll individual_id (member_ids (groups_tree app ! g))\<rparr>])
                 else groups_tree app);
              (removed, inds') = remove_tree id_ind (individuals_tree app) individual_id;
              app' = app\<lparr>individuals_tree := inds', groups_tree := groups'\<rparr>
          in if removed then (None, app') else (Some DeleteFailed, app'))"

definition delete_group :: "string \<Rightarrow> StepTrackerApp \<Rightarrow> error option \<times> StepTrackerApp" where
  "delete_group gid app =
     (case search_tree (<) group_id (groups_tree app) gid of
        None \<Rightarrow> (Some NotFound, app)
      | Some g \<Rightarrow>
          let inds' = set_members_group [] (member_ids (groups_tree app ! g)) (individuals_tree app);
              (removed, groups') = remove_tree group_id (groups_tree app) gid;
              app' = app\<lparr>individuals_tree := inds', groups_tree := groups'\<rparr>
          in if removed then (None, app') else (Some DeleteFailed, app'))"

text \<open>The \<^verbatim>\<open>std::set<int>\<close> of \<^verbatim>\<open>merge_groups\<close>, as the sorted list of its elements:
  inserting an element that is present changes nothing.\<close>

definition merged_member_ids :: "int list \<Rightarrow> int list \<Rightarrow> int list" where
  "merged_member_ids ids1 ids2 = fold insort_insert ids2 (fold insort_insert ids1 [])"

definition merge_groups ::
  "string \<Rightarrow> string \<Rightarrow> string \<Rightarrow> int \<Rightarrow> StepTrackerApp \<Rightarrow> error option \<times> StepTrackerApp" where
  "merge_groups group_id_1 group_id_2 new_group_name new_weekly_goal app =
     (case search_tree (<) group_id (groups_tree app) group_id_1 of
        None \<Rightarrow> (Some NotFound, app)
      | Some group1 \<Rightarrow>
     (case search_tree (<) group_id (groups_tree app) group_id_2 of
        None \<Rightarrow> (Some NotFound, app)
      | Some group2 \<Rightarrow>
          let merged = merged_member_ids (member_ids (groups_tree app ! group1))
                         (member_ids (groups_tree app ! group2))
          in if length merged > MAX_MEMBERS then (Some TooManyMembers, app)
             else
               (case delete_group group_id_1 app of
                  (Some e, app1) \<Rightarrow> (Some InconsistentState, app1)
                | (None, app1) \<Rightarrow>
               (case delete_group group_id_2 app1 of
                  (Some e, app2) \<Rightarrow> (Some InconsistentState, app2)
                | (None, app2) \<Rightarrow>
                    (None,
                     app2\<lparr>groups_tree :=
                            insert_tree (<) group_id (groups_tree app2)
                              (Group_ctor group_id_1 new_group_name merged new_weekly_goal),
                          individuals_tree :=
                            set_members_group group_id_1 merged (individuals_tree app2)\<rparr>)))))"

section \<open>std::sort as the GNU C++ library implements it\<close>

text \<open>
  \<^verbatim>\<open>std::sort\<close> belongs to the C++ standard library the program is built with, not to
  the repository. This section follows the implementation of GNU libstdc++
  (\<^verbatim>\<open>bits/stl_algo.h\<close>, \<^verbatim>\<open>bits/stl_heap.h\<close>), an introsort: ranges of more than 16
  elements are partitioned around a median-of-three pivot, heap sort takes over when the
  depth limit \<open>2 * lg n\<close> is used up, and an insertion sort finishes. The functions have
  the library's names without the leading underscores. A range is the list together
  with the indices \<open>first\<close> and \<open>lim\<close> (the library's \<^verbatim>\<open>__last\<close>); \<open>cutp\<close> is its
  \<^verbatim>\<open>__cut\<close>. The library's unguarded loops do not test the bounds of the range, they
  rely on an element of the range to stop them; here they also stop at the ends of the
  list, which they do not reach when the comparator is a strict weak ordering.
\<close>

definition iter_swap :: "'a list \<Rightarrow> nat \<Rightarrow> nat \<Rightarrow> 'a list" where
  "iter_swap xs i j = xs[i := xs ! j, j := xs ! i]"

fun lg :: "nat \<Rightarrow> nat" where
  "lg n = (if n < 2 then 0 else Suc (lg (n div 2)))"

declare lg.simps [simp del]

definition move_median_to_first ::
  "('a \<Rightarrow> 'a \<Rightarrow> bool) \<Rightarrow> 'a list \<Rightarrow> nat \<Rightarrow> nat \<Rightarrow> nat \<Rightarrow> nat \<Rightarrow> 'a list" where
  "move_median_to_first cmp xs result a b c =
     (if cmp (xs ! a) (xs ! b) then
        (if cmp (xs ! b) (xs ! c) then iter_swap xs result b
         else if cmp (xs ! a) (xs ! c) then iter_swap xs result c
         else iter_swap xs result a)
      else if cmp (xs ! a) (xs ! c) then iter_swap xs result a
      else if cmp (xs ! b) (xs ! c) then iter_swap xs result c
      else iter_swap xs result b)"

text \<open>The two inner loops of \<^verbatim>\<open>__unguarded_partition\<close>:
  \<^verbatim>\<open>while (comp(first, pivot)) ++first;\<close> and \<^verbatim>\<open>while (comp(pivot, last)) --last;\<close>.\<close>

function scan_up :: "('a \<Rightarrow> 'a \<Rightarrow> bool) \<Rightarrow> 'a list \<Rightarrow> nat \<Rightarrow> nat \<Rightarrow> nat" where
  "scan_up cmp xs pivot first =
     (if first < length xs \<and> cmp (xs ! first) (xs ! pivot)
      then scan_up cmp xs pivot (Suc first) else first)"
  by pat_completeness auto
termination
  by (relation "measure (\<lambda>(cmp, xs, pivot, first). length xs - first)") auto

declare scan_up.simps [simp del]

function scan_down :: "('a \<Rightarrow> 'a \<Rightarrow> bool) \<Rightarrow> 'a list \<Rightarrow> nat \<Rightarrow> nat \<Rightarrow> nat" where
  "scan_down cmp xs pivot lim =
     (if 0 < lim \<and> cmp (xs ! pivot) (xs ! lim)
      then scan_down cmp xs pivot (lim - 1) else lim)"
  by pat_completeness auto
termination
  by (relation "measure (\<lambda>(cmp, xs, pivot, lim). lim)") auto

declare scan_down.simps [simp del]

lemma scan_up_ge: "first \<le> scan_up cmp xs pivot first"
proof (induction cmp xs pivot first rule: scan_up.induct)
  case (1 cmp xs pivot first)
  then show ?case by (subst scan_up.simps) (auto simp: Suc_leD)
qed

lemma scan_down_le: "scan_down cmp xs pivot lim \<le> lim"
proof (induction cmp xs pivot lim rule: scan_down.induct)
  case (1 cmp xs pivot lim)
  then show ?case by (subst scan_down.simps) (auto intro: le_trans [OF _ diff_le_self])
qed

function unguarded_partition ::
  "('a \<Rightarrow> 'a \<Rightarrow> bool) \<Rightarrow> 'a list \<Rightarrow> nat \<Rightarrow> nat \<Rightarrow> nat \<Rightarrow> nat \<times> 'a list" where
  "unguarded_partition cmp xs first lim pivot =
     (let first1 = scan_up cmp xs pivot first;
          lim1 = scan_down cmp xs pivot (lim - 1)
      in if \<not> first1 < lim1 then (first1, xs)
         else unguarded_partition cmp (iter_swap xs first1 lim1) (Suc first1) lim1 pivot)"
  by pat_completeness auto
termination
proof (relation "measure (\<lambda>(cmp, xs, first, lim, pivot). lim - first)", goal_cases)
  case 1
  then show ?case by simp
next
  case (2 cmp xs first lim pivot first1 lim1)
  have "first \<le> first1" using 2 scan_up_ge by metis
  moreover have "lim1 \<le> lim - 1" using 2 scan_down_le by metis
  ultimately show ?case using 2 by simp
qed

declare unguarded_partition.simps [simp del]

definition unguarded_partition_pivot ::
  "('a \<Rightarrow> 'a \<Rightarrow> bool) \<Rightarrow> 'a list \<Rightarrow> nat \<Rightarrow> nat \<Rightarrow> nat \<times> 'a list" where
  "unguarded_partition_pivot cmp xs first lim =
     (let mid = first + (lim - first) div 2;
          xs' = move_median_to_first cmp xs first (first + 1) mid (lim - 1)
      in unguarded_partition cmp xs' (first + 1) lim first)"


text \<open>Heap sort, the fallback \<^verbatim>\<open>__partial_sort(first, last, last)\<close>. In
  \<^verbatim>\<open>__adjust_heap\<close> the first loop keeps \<^verbatim>\<open>holeIndex\<close> equal to \<^verbatim>\<open>secondChild\<close>; the
  library computes \<^verbatim>\<open>(len - 2) / 2\<close> on signed integers, which is not an index for a
  length below 2.\<close>

function push_heap ::
  "('a \<Rightarrow> 'a \<Rightarrow> bool) \<Rightarrow> 'a list \<Rightarrow> nat \<Rightarrow> nat \<Rightarrow> nat \<Rightarrow> 'a \<Rightarrow> 'a list" where
  "push_heap cmp xs first holeIndex topIndex v =
     (let parent = (holeIndex - 1) div 2
      in if holeIndex > topIndex \<and> cmp (xs ! (first + parent)) v
         then push_heap cmp (xs[first + holeIndex := xs ! (first + parent)]) first parent topIndex v
         else xs[first + holeIndex := v])"
  by pat_completeness auto
termination
  by (relation "measure (\<lambda>(cmp, xs, first, holeIndex, topIndex, v). holeIndex)") auto

declare push_heap.simps [simp del]

function adjust_heap_down ::
  "('a \<Rightarrow> 'a \<Rightarrow> bool) \<Rightarrow> 'a list \<Rightarrow> nat \<Rightarrow> nat \<Rightarrow> nat \<Rightarrow> nat \<times> 'a list" where
  "adjust_heap_down cmp xs first len secondChild =
     (if secondChild < (len - 1) div 2
      then
        let c = 2 * (secondChild + 1);
            c' = (if cmp (xs ! (first + c)) (xs ! (first + (c - 1))) then c - 1 else c)
        in adjust_heap_down cmp (xs[first + secondChild := xs ! (first + c')]) first len c'
      else (secondChild, xs))"
  by pat_completeness auto
termination
  by (relation "measure (\<lambda>(cmp, xs, first, len, secondChild). len - secondChild)") auto

declare adjust_heap_down.simps [simp del]

definition adjust_heap ::
  "('a \<Rightarrow> 'a \<Rightarrow> bool) \<Rightarrow> 'a list \<Rightarrow> nat \<Rightarrow> nat \<Rightarrow> nat \<Rightarrow> 'a \<Rightarrow> 'a list" where
  "adjust_heap cmp xs first holeIndex len v =
     (case adjust_heap_down cmp xs first len holeIndex of
        (secondChild, xs1) \<Rightarrow>
          if even len \<and> 2 \<le> len \<and> secondChild = (len - 2) div 2
          then
            let c = 2 * (secondChild + 1)
            in push_heap cmp (xs1[first + secondChild := xs1 ! (first + (c - 1))])
                 first (c - 1) holeIndex v
          else push_heap cmp xs1 first secondChild holeIndex v)"

definition pop_heap ::
  "('a \<Rightarrow> 'a \<Rightarrow> bool) \<Rightarrow> 'a list \<Rightarrow> nat \<Rightarrow> nat \<Rightarrow> nat \<Rightarrow> 'a list" where
  "pop_heap cmp xs first lim result =
     adjust_heap cmp (xs[result := xs ! first]) first 0 (lim - first) (xs ! result)"

fun make_heap_from ::
  "('a \<Rightarrow> 'a \<Rightarrow> bool) \<Rightarrow> 'a list \<Rightarrow> nat \<Rightarrow> nat \<Rightarrow> nat \<Rightarrow> 'a list" where
  "make_heap_from cmp xs first len 0 = adjust_heap cmp xs first 0 len (xs ! first)"
| "make_heap_from cmp xs first len (Suc parent) =
     make_heap_from cmp
       (adjust_heap cmp xs first (Suc parent) len (xs ! (first + Suc parent))) first len parent"

definition make_heap :: "('a \<Rightarrow> 'a \<Rightarrow> bool) \<Rightarrow> 'a list \<Rightarrow> nat \<Rightarrow> nat \<Rightarrow> 'a list" where
  "make_heap cmp xs first lim =
     (if lim - first < 2 then xs
      else make_heap_from cmp xs first (lim - first) ((lim - first - 2) div 2))"

function sort_heap :: "('a \<Rightarrow> 'a \<Rightarrow> bool) \<Rightarrow> 'a list \<Rightarrow> nat \<Rightarrow> nat \<Rightarrow> 'a list" where
  "sort_heap cmp xs first lim =
     (if lim - first > 1
      then sort_heap cmp (pop_heap cmp xs first (lim - 1) (lim - 1)) first (lim - 1)
      else xs)"
  by pat_completeness auto
termination
  by (relation "measure (\<lambda>(cmp, xs, first, lim). lim - first)") auto

declare sort_heap.simps [simp del]

function heap_select_from ::
  "('a \<Rightarrow> 'a \<Rightarrow> bool) \<Rightarrow> 'a list \<Rightarrow> nat \<Rightarrow> nat \<Rightarrow> nat \<Rightarrow> nat \<Rightarrow> 'a list" where
  "heap_select_from cmp xs first middle i lim =
     (if i < lim
      then heap_select_from cmp
             (if cmp (xs ! i) (xs ! first) then pop_heap cmp xs first middle i else xs)
             first middle (Suc i) lim
      else xs)"
  by pat_completeness auto
termination
  by (relation "measure (\<lambda>(cmp, xs, first, middle, i, lim). lim - i)") auto

declare heap_select_from.simps [simp del]

definition heap_select ::
  "('a \<Rightarrow> 'a \<Rightarrow> bool) \<Rightarrow> 'a list \<Rightarrow> nat \<Rightarrow> nat \<Rightarrow> nat \<Rightarrow> 'a list" where
  "heap_select cmp xs first middle lim =
     heap_select_from cmp (make_heap cmp xs first middle) first middle middle lim"

definition partial_sort ::
  "('a \<Rightarrow> 'a \<Rightarrow> bool) \<Rightarrow> 'a list \<Rightarrow> nat \<Rightarrow> nat \<Rightarrow> nat \<Rightarrow> 'a list" where
  "partial_sort cmp xs first middle lim =
     sort_heap cmp (heap_select cmp xs first middle lim) first middle"

function introsort_loop ::
  "('a \<Rightarrow> 'a \<Rightarrow> bool) \<Rightarrow> 'a list \<Rightarrow> nat \<Rightarrow> nat \<Rightarrow> nat \<Rightarrow> 'a list" where
  "introsort_loop cmp xs first lim depth_limit =
     (if lim - first > 16
      then
        if depth_limit = 0 then partial_sort cmp xs first lim lim
        else
          (case unguarded_partition_pivot cmp xs first lim of
             (cutp, xs1) \<Rightarrow>
               introsort_loop cmp
                 (introsort_loop cmp xs1 cutp lim (depth_limit - 1))
                 first cutp (depth_limit - 1))
      else xs)"
  by pat_completeness auto
termination
  by (relation "measure (\<lambda>(cmp, xs, first, lim, depth_limit). depth_limit)") auto

declare introsort_loop.simps [simp del]

text \<open>The final insertion sort. \<open>linear_insert_shift\<close> is the loop of
  \<^verbatim>\<open>__unguarded_linear_insert\<close>, and \<open>move_to_first\<close> is the \<^verbatim>\<open>move_backward\<close> of
  \<^verbatim>\<open>__insertion_sort\<close> followed by the store of the moved value at \<^verbatim>\<open>first\<close>.\<close>

function linear_insert_shift ::
  "('a \<Rightarrow> 'a \<Rightarrow> bool) \<Rightarrow> 'a \<Rightarrow> 'a list \<Rightarrow> nat \<Rightarrow> 'a list" where
  "linear_insert_shift cmp v xs lim =
     (if 0 < lim \<and> cmp v (xs ! (lim - 1))
      then linear_insert_shift cmp v (xs[lim := xs ! (lim - 1)]) (lim - 1)
      else xs[lim := v])"
  by pat_completeness auto
termination
  by (relation "measure (\<lambda>(cmp, v, xs, lim). lim)") auto

declare linear_insert_shift.simps [simp del]

definition unguarded_linear_insert ::
  "('a \<Rightarrow> 'a \<Rightarrow> bool) \<Rightarrow> 'a list \<Rightarrow> nat \<Rightarrow> 'a list" where
  "unguarded_linear_insert cmp xs lim = linear_insert_shift cmp (xs ! lim) xs lim"

definition move_to_first :: "'a list \<Rightarrow> nat \<Rightarrow> nat \<Rightarrow> 'a list" where
  "move_to_first xs first i =
     take first xs @ xs ! i # take (i - first) (drop first xs) @ drop (Suc i) xs"

function insertion_sort_from ::
  "('a \<Rightarrow> 'a \<Rightarrow> bool) \<Rightarrow> 'a list \<Rightarrow> nat \<Rightarrow> nat \<Rightarrow> nat \<Rightarrow> 'a list" where
  "insertion_sort_from cmp xs first i lim =
     (if i < lim
      then insertion_sort_from cmp
             (if cmp (xs ! i) (xs ! first) then move_to_first xs first i
              else unguarded_linear_insert cmp xs i)
             first (Suc i) lim
      else xs)"
  by pat_completeness auto
termination
  by (relation "measure (\<lambda>(cmp, xs, first, i, lim). lim - i)") auto

declare insertion_sort_from.simps [simp del]

definition insertion_sort ::
  "('a \<Rightarrow> 'a \<Rightarrow> bool) \<Rightarrow> 'a list \<Rightarrow> nat \<Rightarrow> nat \<Rightarrow> 'a list" where
  "insertion_sort cmp xs first lim =
     (if first = lim then xs else insertion_sort_from cmp xs first (Suc first) lim)"

function unguarded_insertion_sort ::
  "('a \<Rightarrow> 'a \<Rightarrow> bool) \<Rightarrow> 'a list \<Rightarrow> nat \<Rightarrow> nat \<Rightarrow> 'a list" where
  "unguarded_insertion_sort cmp xs i lim =
     (if i < lim
      then unguarded_insertion_sort cmp (unguarded_linear_insert cmp xs i) (Suc i) lim
      else xs)"
  by pat_completeness auto
termination
  by (relation "measure (\<lambda>(cmp, xs, i, lim). lim - i)") auto

declare unguarded_insertion_sort.simps [simp del]

definition final_insertion_sort ::
  "('a \<Rightarrow> 'a \<Rightarrow> bool) \<Rightarrow> 'a list \<Rightarrow> nat \<Rightarrow> nat \<Rightarrow> 'a list" where
  "final_insertion_sort cmp xs first lim =
     (if lim - first > 16
      then unguarded_insertion_sort cmp (insertion_sort cmp xs first (first + 16)) (first + 16) lim
      else insertion_sort cmp xs first lim)"

text \<open>\<^verbatim>\<open>std::sort(first, last, comp)\<close> on the whole vector.\<close>

definition gnu_sort :: "('a \<Rightarrow> 'a \<Rightarrow> bool) \<Rightarrow> 'a list \<Rightarrow> 'a list" where
  "gnu_sort cmp xs =
     (if xs = [] then xs
      else final_insertion_sort cmp
             (introsort_loop cmp xs 0 (length xs) (lg (length xs) * 2)) 0 (length xs))"

section \<open>Invariants, sequences of operations and example states\<close>

text \<open>Both containers keep their vector strictly increasing in the key; every
  operation below relies on it when it searches.\<close>

definition well_formed :: "StepTrackerApp \<Rightarrow> bool" where
  "well_formed app \<longleftrightarrow>
     sorted_tree (<) id_ind (individuals_tree app) \<and> sorted_tree (<) group_id (groups_tree app)"

text \<open>Example states: \<open>member i g\<close> is an individual with id \<open>i\<close> whose
  \<^verbatim>\<open>current_group_id\<close> is \<open>g\<close>; \<open>team g ms\<close> is a group with id \<open>g\<close> and members \<open>ms\<close>.\<close>

definition member :: "int \<Rightarrow> string \<Rightarrow> Individual" where
  "member i g = (Individual_ctor i ''P'' 30 5000 [9000])\<lparr>current_group_id := g\<rparr>"

definition team :: "string \<Rightarrow> int list \<Rightarrow> Group" where
  "team g ms = Group_ctor g ''Team'' ms 1000"

definition two_full_groups :: StepTrackerApp where
  "two_full_groups =
     \<lparr>individuals_tree = [member 1 ''G1'', member 2 ''G1'', member 3 ''G1'',
                          member 4 ''G2'', member 5 ''G2'', member 6 ''G2''],
      groups_tree = [team ''G1'' [1, 2, 3], team ''G2'' [4, 5, 6]]\<rparr>"

definition two_pairs :: StepTrackerApp where
  "two_pairs =
     \<lparr>individuals_tree = [member 1 ''G1'', member 2 ''G1'', member 3 ''G2'', member 4 ''G2''],
      groups_tree = [team ''G1'' [1, 2], team ''G2'' [3, 4]]\<rparr>"

definition five_ungrouped :: StepTrackerApp where
  "five_ungrouped =
     \<lparr>individuals_tree = [member 1 [], member 2 [], member 3 [], member 4 [], member 5 []],
      groups_tree = []\<rparr>"

text \<open>
  A sorting procedure that meets the contract of \<^verbatim>\<open>std::sort\<close>, to run the ranking
  on examples: an insertion sort from the right end of the input, which puts an element
  in front of the elements equivalent to it (they came later in the input) and so keeps
  the input order of ties.
\<close>

fun insert_stable :: "('a \<Rightarrow> 'a \<Rightarrow> bool) \<Rightarrow> 'a \<Rightarrow> 'a list \<Rightarrow> 'a list" where
  "insert_stable cmp x [] = [x]"
| "insert_stable cmp x (y # ys) =
     (if cmp y x then y # insert_stable cmp x ys else x # y # ys)"

definition stable_sort :: "('a \<Rightarrow> 'a \<Rightarrow> bool) \<Rightarrow> 'a list \<Rightarrow> 'a list" where
  "stable_sort cmp xs = foldr (insert_stable cmp) xs []"

definition walker :: "int \<Rightarrow> int \<Rightarrow> int list \<Rightarrow> Individual" where
  "walker i goal steps = Individual_ctor i ''W'' 30 goal steps"

text \<open>Scenario C: six days below the goal and a last day above it.\<close>

definition scenario_C :: StepTrackerApp where
  "scenario_C =
     \<lparr>individuals_tree = [walker 1 5000 [3000, 3000, 3000, 3000, 3000, 3000, 9000],
                          walker 2 5000 [9000, 9000, 9000, 9000, 9000, 9000, 3000],
                          walker 3 5000 []],
      groups_tree = []\<rparr>"

text \<open>Four individuals who all reach their goal on the last day.\<close>

definition four_walkers :: StepTrackerApp where
  "four_walkers =
     \<lparr>individuals_tree = [walker 1 5000 [7000], walker 2 5000 [9000],
                          walker 3 5000 [8000], walker 4 5000 [6000]],
      groups_tree = []\<rparr>"

text \<open>Seventeen individuals, ids 1 to 17, with the same step count on the last day.\<close>

definition seventeen_tied :: StepTrackerApp where
  "seventeen_tied =
     \<lparr>individuals_tree = map (\<lambda>i. walker i 5000 [9000]) [1..17], groups_tree = []\<rparr>"

text \<open>Six individuals in one group, as \<^verbatim>\<open>_load_data\<close> builds it from a file: the loader
  inserts a group with all the member ids of its line and does not test the cap.\<close>

definition six_in_one :: StepTrackerApp where
  "six_in_one =
     \<lparr>individuals_tree = [member 1 ''G1'', member 2 ''G1'', member 3 ''G1'',
                          member 4 ''G1'', member 5 ''G1'', member 6 ''G1''],
      groups_tree = [team ''G1'' [1, 2, 3, 4, 5, 6]]\<rparr>"

text \<open>
  The two membership invariants of the specification. I1: every id in the member list
  of a stored group is the id of a stored individual whose \<^verbatim>\<open>current_group_id\<close> is the
  id of that group. I2: every stored individual whose \<^verbatim>\<open>current_group_id\<close> is not empty
  names a stored group that has the individual's id in its member list.
\<close>

definition membership_symmetric :: "StepTrackerApp \<Rightarrow> bool" where
  "membership_symmetric app \<longleftrightarrow>
     (\<forall>g \<in> set (groups_tree app). \<forall>m \<in> set (member_ids g).
        \<exists>ind \<in> set (individuals_tree app). id_ind ind = m \<and> current_group_id ind = group_id g)
     \<and> (\<forall>ind \<in> set (individuals_tree app). current_group_id ind \<noteq> [] \<longrightarrow>
          (\<exists>g \<in> set (groups_tree app).
             group_id g = current_group_id ind \<and> id_ind ind \<in> set (member_ids g)))"

text \<open>The empty string is what \<^verbatim>\<open>current_group_id\<close> holds for "no group", so a group
  whose id is the empty string cannot be told from no group.\<close>

definition group_ids_nonempty :: "StepTrackerApp \<Rightarrow> bool" where
  "group_ids_nonempty app \<longleftrightarrow> (\<forall>g \<in> set (groups_tree app). group_id g \<noteq> [])"

definition consistent :: "StepTrackerApp \<Rightarrow> bool" where
  "consistent app \<longleftrightarrow> well_formed app \<and> membership_symmetric app \<and> group_ids_nonempty app"

text \<open>The public operations that change memberships, and what a sequence of them does to
  the state; a call that fails leaves the state it returns.\<close>

datatype operation =
  Add_person int string int int "int list"
  | Create_group string string "int list" int
  | Delete_individual int
  | Delete_group string
  | Merge_groups string string string int

fun apply_operation :: "operation \<Rightarrow> StepTrackerApp \<Rightarrow> StepTrackerApp" where
  "apply_operation (Add_person i n a goal steps) app = snd (add_person i n a goal steps app)"
| "apply_operation (Create_group gid gname mids goal) app = snd (create_group gid gname mids goal app)"
| "apply_operation (Delete_individual i) app = snd (delete_individual i app)"
| "apply_operation (Delete_group gid) app = snd (delete_group gid app)"
| "apply_operation (Merge_groups g1 g2 gname goal) app = snd (merge_groups g1 g2 gname goal app)"

definition run :: "operation list \<Rightarrow> StepTrackerApp \<Rightarrow> StepTrackerApp" where
  "run ops app = fold apply_operation ops app"

fun creates_unnamed_group :: "operation \<Rightarrow> bool" where
  "creates_unnamed_group (Create_group gid gname mids goal) = (gid = [])"
| "creates_unnamed_group _ = False"

text \<open>One ungrouped individual and no group.\<close>

definition lone_walker :: StepTrackerApp where
  "lone_walker = \<lparr>individuals_tree = [walker 1 5000 [9000]], groups_tree = []\<rparr>"

section \<open>The container: insertion\<close>

lemma swo_irrefl: "strict_weak_order cmp \<Longrightarrow> \<not> cmp a a"
  by (simp add: strict_weak_order_def)

lemma swo_trans: "strict_weak_order cmp \<Longrightarrow> cmp a b \<Longrightarrow> cmp b c \<Longrightarrow> cmp a c"
  unfolding strict_weak_order_def by blast

lemma swo_asym: "strict_weak_order cmp \<Longrightarrow> cmp a b \<Longrightarrow> \<not> cmp b a"
  using swo_irrefl swo_trans by metis

lemma swo_cotrans:
  assumes "strict_weak_order cmp" and "cmp a b"
  shows "cmp a c \<or> cmp c b"
proof (rule ccontr)
  assume n: "\<not> (cmp a c \<or> cmp c b)"
  have ca: "\<not> cmp c a" using assms n swo_trans by metis
  have bc: "\<not> cmp b c" using assms n swo_trans by metis
  from assms(1) have
    "\<not> cmp a c \<and> \<not> cmp c a \<and> \<not> cmp c b \<and> \<not> cmp b c \<longrightarrow> \<not> cmp a b \<and> \<not> cmp b a"
    unfolding strict_weak_order_def by blast
  with n ca bc assms(2) show False by blast
qed

lemma find_insert_pos_le: "find_insert_pos cmp kx data k \<le> length data"
  by (simp add: find_insert_pos_def length_takeWhile_le)

lemma take_find_insert_pos:
  "take (find_insert_pos cmp kx data k) data = takeWhile (\<lambda>obj. cmp (kx obj) k) data"
  unfolding find_insert_pos_def by (rule takeWhile_eq_take [symmetric])

lemma drop_find_insert_pos:
  "drop (find_insert_pos cmp kx data k) data = dropWhile (\<lambda>obj. cmp (kx obj) k) data"
  unfolding find_insert_pos_def by (rule dropWhile_eq_drop [symmetric])

lemma find_insert_pos_end_iff:
  "find_insert_pos cmp kx data k = length data \<longleftrightarrow> (\<forall>x\<in>set data. cmp (kx x) k)"
proof -
  have "length (takeWhile (\<lambda>obj. cmp (kx obj) k) data) = length data
        \<longleftrightarrow> takeWhile (\<lambda>obj. cmp (kx obj) k) data = data"
    by (metis takeWhile_eq_take take_all_iff le_refl)
  then show ?thesis by (simp add: find_insert_pos_def)
qed

lemma nth_find_insert_pos_hd:
  "find_insert_pos cmp kx data k \<noteq> length data \<Longrightarrow>
   data ! find_insert_pos cmp kx data k = hd (dropWhile (\<lambda>obj. cmp (kx obj) k) data)"
  using find_insert_pos_le [of cmp kx data k]
  by (simp add: drop_find_insert_pos [symmetric] hd_drop_conv_nth)

lemma dropWhile_sorted_not_less:
  assumes "strict_weak_order cmp" and "sorted_tree cmp kx data"
    and "b \<in> set (dropWhile (\<lambda>obj. cmp (kx obj) k) data)"
  shows "\<not> cmp (kx b) k"
  using assms(2,3)
proof (induction data)
  case Nil
  then show ?case by simp
next
  case (Cons x xs)
  show ?case
  proof (cases "cmp (kx x) k")
    case True
    with Cons show ?thesis by (simp add: sorted_tree_def)
  next
    case False
    with Cons.prems have "b = x \<or> (b \<in> set xs \<and> cmp (kx x) (kx b))"
      by (auto simp: sorted_tree_def)
    with False show ?thesis using swo_trans [OF assms(1)] by blast
  qed
qed

lemma insert_tree_present:
  assumes swo: "strict_weak_order cmp" and srt: "sorted_tree cmp kx data"
    and x: "x \<in> set data" "\<not> cmp (kx x) (kx item)" "\<not> cmp (kx item) (kx x)"
  shows "insert_tree cmp kx data item = data"
proof -
  let ?k = "kx item"
  let ?P = "\<lambda>obj. cmp (kx obj) ?k"
  let ?p = "find_insert_pos cmp kx data ?k"
  from x have ne: "?p \<noteq> length data" by (auto simp: find_insert_pos_end_iff)
  then have dw: "dropWhile ?P data \<noteq> []"
    by (auto simp: find_insert_pos_end_iff)
  define y where "y = data ! ?p"
  have yhd: "y = hd (dropWhile ?P data)" using ne by (simp add: y_def nth_find_insert_pos_hd)
  have ynl: "\<not> cmp (kx y) ?k" using dw yhd hd_dropWhile by metis
  obtain zs where zs: "dropWhile ?P data = y # zs" using dw yhd by (cases "dropWhile ?P data") auto
  have "x \<in> set (dropWhile ?P data)"
    using x(1,2) takeWhile_dropWhile_id [of ?P data] set_takeWhileD [of x ?P data]
    by (metis Un_iff set_append)
  then have "x = y \<or> x \<in> set zs" by (simp add: zs)
  moreover have "sorted_wrt (\<lambda>a b. cmp (kx a) (kx b)) (y # zs)"
    using srt sorted_wrt_dropWhile [of _ data ?P] by (simp add: sorted_tree_def zs [symmetric])
  ultimately have "x = y \<or> cmp (kx y) (kx x)" by auto
  then have "\<not> cmp ?k (kx y)" using x(3) swo_trans [OF swo] by blast
  with ne ynl show ?thesis by (simp add: insert_tree_def Let_def y_def)
qed

lemma insert_tree_absent:
  assumes swo: "strict_weak_order cmp" and srt: "sorted_tree cmp kx data"
    and nx: "\<forall>x\<in>set data. cmp (kx x) (kx item) \<or> cmp (kx item) (kx x)"
  shows "insert_tree cmp kx data item =
           takeWhile (\<lambda>obj. cmp (kx obj) (kx item)) data @ item #
           dropWhile (\<lambda>obj. cmp (kx obj) (kx item)) data"
    and "sorted_tree cmp kx (insert_tree cmp kx data item)"
proof -
  let ?k = "kx item"
  let ?P = "\<lambda>obj. cmp (kx obj) ?k"
  let ?p = "find_insert_pos cmp kx data ?k"
  have "?p \<noteq> length data \<Longrightarrow> data ! ?p \<in> set data"
    using find_insert_pos_le [of cmp kx data ?k] by simp
  with nx have "?p \<noteq> length data \<Longrightarrow> cmp (kx (data ! ?p)) ?k \<or> cmp ?k (kx (data ! ?p))"
    by blast
  then show eq: "insert_tree cmp kx data item = takeWhile ?P data @ item # dropWhile ?P data"
    by (auto simp: insert_tree_def Let_def take_find_insert_pos drop_find_insert_pos)
  have after: "cmp ?k (kx b)" if "b \<in> set (dropWhile ?P data)" for b
    using dropWhile_sorted_not_less [OF swo srt that] nx that set_dropWhileD by metis
  have before: "cmp (kx a) ?k" if "a \<in> set (takeWhile ?P data)" for a
    using that set_takeWhileD by metis
  have "sorted_wrt (\<lambda>a b. cmp (kx a) (kx b)) (takeWhile ?P data @ item # dropWhile ?P data)"
    unfolding sorted_wrt_append
  proof (intro conjI ballI)
    show "sorted_wrt (\<lambda>a b. cmp (kx a) (kx b)) (takeWhile ?P data)"
      using srt by (simp add: sorted_tree_def)
    show "sorted_wrt (\<lambda>a b. cmp (kx a) (kx b)) (item # dropWhile ?P data)"
      using srt after by (simp add: sorted_tree_def)
    fix a b assume "a \<in> set (takeWhile ?P data)" "b \<in> set (item # dropWhile ?P data)"
    then show "cmp (kx a) (kx b)"
      using before [of a] after [of b] swo_trans [OF swo, of "kx a" ?k "kx b"] by auto
  qed
  then show "sorted_tree cmp kx (insert_tree cmp kx data item)"
    by (simp add: eq sorted_tree_def)
qed

text \<open>
  Claim C9 (the contract of \<^verbatim>\<open>insert\<close>). On a container that is sorted by key under a
  strict weak ordering: when an element whose key is equivalent to the key of the item
  (neither is less than the other) is present, \<open>insert_tree\<close> returns the vector as it
  was; when none is, the item is put between two parts of the vector, nothing else is
  added, moved or dropped, and the vector is again sorted by key.
\<close>

theorem insert_tree_contract:
  assumes "strict_weak_order cmp" and "sorted_tree cmp key_extractor data"
  shows "((\<exists>x\<in>set data. \<not> cmp (key_extractor x) (key_extractor item)
                        \<and> \<not> cmp (key_extractor item) (key_extractor x))
            \<longrightarrow> insert_tree cmp key_extractor data item = data)
       \<and> ((\<forall>x\<in>set data. cmp (key_extractor x) (key_extractor item)
                        \<or> cmp (key_extractor item) (key_extractor x))
            \<longrightarrow> (\<exists>before after. data = before @ after
                    \<and> insert_tree cmp key_extractor data item = before @ item # after)
                \<and> mset (insert_tree cmp key_extractor data item) = add_mset item (mset data)
                \<and> sorted_tree cmp key_extractor (insert_tree cmp key_extractor data item))"
proof (intro conjI impI)
  assume "\<exists>x\<in>set data. \<not> cmp (key_extractor x) (key_extractor item)
                        \<and> \<not> cmp (key_extractor item) (key_extractor x)"
  then show "insert_tree cmp key_extractor data item = data"
    using insert_tree_present [OF assms] by blast
next
  let ?P = "\<lambda>obj. cmp (key_extractor obj) (key_extractor item)"
  assume nx: "\<forall>x\<in>set data. cmp (key_extractor x) (key_extractor item)
                        \<or> cmp (key_extractor item) (key_extractor x)"
  have eq: "insert_tree cmp key_extractor data item = takeWhile ?P data @ item # dropWhile ?P data"
    by (rule insert_tree_absent(1) [OF assms nx])
  have "data = takeWhile ?P data @ dropWhile ?P data" by simp
  with eq show "\<exists>before after. data = before @ after
                    \<and> insert_tree cmp key_extractor data item = before @ item # after"
    by blast
  have "mset (takeWhile ?P data) + mset (dropWhile ?P data) = mset data"
    by (simp only: mset_append [symmetric] takeWhile_dropWhile_id)
  then show "mset (insert_tree cmp key_extractor data item) = add_mset item (mset data)"
    by (simp add: eq)
  show "sorted_tree cmp key_extractor (insert_tree cmp key_extractor data item)"
    by (rule insert_tree_absent(2) [OF assms nx])
qed

theorem insert_tree_contract_witness:
  "strict_weak_order ((<) :: string \<Rightarrow> string \<Rightarrow> bool)
   \<and> sorted_tree (<) group_id [Group_ctor ''G1'' ''One'' [1, 2] 100, Group_ctor ''G3'' ''Three'' [3] 300]
   \<and> insert_tree (<) group_id
        [Group_ctor ''G1'' ''One'' [1, 2] 100, Group_ctor ''G3'' ''Three'' [3] 300]
        (Group_ctor ''G3'' ''Other'' [4] 400)
      = [Group_ctor ''G1'' ''One'' [1, 2] 100, Group_ctor ''G3'' ''Three'' [3] 300]
   \<and> mset (insert_tree (<) group_id
        [Group_ctor ''G1'' ''One'' [1, 2] 100, Group_ctor ''G3'' ''Three'' [3] 300]
        (Group_ctor ''G2'' ''Two'' [4] 400))
      = add_mset (Group_ctor ''G2'' ''Two'' [4] 400)
          (mset [Group_ctor ''G1'' ''One'' [1, 2] 100, Group_ctor ''G3'' ''Three'' [3] 300])
   \<and> sorted_tree (<) group_id (insert_tree (<) group_id
        [Group_ctor ''G1'' ''One'' [1, 2] 100, Group_ctor ''G3'' ''Three'' [3] 300]
        (Group_ctor ''G2'' ''Two'' [4] 400))"
proof -
  let ?data = "[Group_ctor ''G1'' ''One'' [1, 2] 100, Group_ctor ''G3'' ''Three'' [3] 300]"
  have swo: "strict_weak_order ((<) :: string \<Rightarrow> string \<Rightarrow> bool)"
    by (auto simp: strict_weak_order_def)
  have srt: "sorted_tree (<) group_id ?data"
    by (simp add: sorted_tree_def Group_ctor_def)
  have dup: "\<exists>x\<in>set ?data. \<not> group_id x < group_id (Group_ctor ''G3'' ''Other'' [4] 400)
                         \<and> \<not> group_id (Group_ctor ''G3'' ''Other'' [4] 400) < group_id x"
    by (simp add: Group_ctor_def)
  have new: "\<forall>x\<in>set ?data. group_id x < group_id (Group_ctor ''G2'' ''Two'' [4] 400)
                         \<or> group_id (Group_ctor ''G2'' ''Two'' [4] 400) < group_id x"
    by (simp add: Group_ctor_def)
  from insert_tree_contract [OF swo srt, of "Group_ctor ''G3'' ''Other'' [4] 400"] dup
  have 1: "insert_tree (<) group_id ?data (Group_ctor ''G3'' ''Other'' [4] 400) = ?data"
    by blast
  from insert_tree_contract [OF swo srt, of "Group_ctor ''G2'' ''Two'' [4] 400"] new
  have 2: "mset (insert_tree (<) group_id ?data (Group_ctor ''G2'' ''Two'' [4] 400))
             = add_mset (Group_ctor ''G2'' ''Two'' [4] 400) (mset ?data)
           \<and> sorted_tree (<) group_id
               (insert_tree (<) group_id ?data (Group_ctor ''G2'' ''Two'' [4] 400))"
    by blast
  from swo srt 1 2 show ?thesis by (intro conjI) (simp_all only:)
qed

section \<open>The container under std::less\<close>

lemma swo_less: "strict_weak_order ((<) :: 'k::linorder \<Rightarrow> 'k \<Rightarrow> bool)"
  by (auto simp: strict_weak_order_def)

lemma sorted_tree_less_map: "sorted_tree (<) kx data \<longleftrightarrow> sorted_wrt (<) (map kx data)"
  by (simp add: sorted_tree_def sorted_wrt_map)

lemma sorted_tree_distinct_keys:
  fixes kx :: "'t \<Rightarrow> 'k::linorder"
  shows "sorted_tree (<) kx data \<Longrightarrow> distinct (map kx data)"
  by (simp add: sorted_tree_less_map strict_sorted_iff)

lemma sorted_tree_index_unique:
  fixes kx :: "'t \<Rightarrow> 'k::linorder"
  assumes "sorted_tree (<) kx data" "i < length data" "j < length data"
    and "kx (data ! i) = kx (data ! j)"
  shows "i = j"
proof -
  have "distinct (map kx data)" using assms(1) by (rule sorted_tree_distinct_keys)
  moreover have "map kx data ! i = map kx data ! j" using assms by simp
  ultimately show ?thesis
    using assms(2,3) nth_eq_iff_index_eq [of "map kx data" i j] by simp
qed

lemma sorted_tree_elem_unique:
  fixes kx :: "'t \<Rightarrow> 'k::linorder"
  assumes "sorted_tree (<) kx data" "x \<in> set data" "y \<in> set data" "kx x = kx y"
  shows "x = y"
  using assms sorted_tree_index_unique [OF assms(1)] by (metis in_set_conv_nth)

lemma search_tree_SomeD:
  fixes kx :: "'t \<Rightarrow> 'k::linorder"
  assumes "search_tree (<) kx data k = Some i"
  shows "i < length data \<and> kx (data ! i) = k"
proof -
  from assms have i: "i = find_insert_pos (<) kx data k" and ne: "i \<noteq> length data"
    and eq: "\<not> k < kx (data ! i)" "\<not> kx (data ! i) < k"
    by (auto simp: search_tree_def Let_def split: if_splits)
  from i ne find_insert_pos_le [of "(<)" kx data k] have "i < length data" by simp
  with eq show ?thesis by simp
qed

lemma find_insert_pos_sorted:
  fixes kx :: "'t \<Rightarrow> 'k::linorder"
  assumes "sorted_tree (<) kx data" "i < length data" "kx (data ! i) = k"
  shows "find_insert_pos (<) kx data k = i"
proof -
  have "takeWhile (\<lambda>obj. kx obj < k) data = take i data"
  proof (rule takeWhile_eq_take_P_nth)
    fix j assume "j < i" "j < length data"
    then show "kx (data ! j) < k"
      using assms sorted_wrt_nth_less [of "\<lambda>a b. kx a < kx b" data j i]
      by (simp add: sorted_tree_def)
  next
    show "\<not> kx (data ! i) < k" using assms(3) by simp
  qed
  then show ?thesis using assms(2) by (simp add: find_insert_pos_def)
qed

lemma search_tree_SomeI:
  fixes kx :: "'t \<Rightarrow> 'k::linorder"
  assumes "sorted_tree (<) kx data" "i < length data" "kx (data ! i) = k"
  shows "search_tree (<) kx data k = Some i"
  using assms find_insert_pos_sorted [OF assms] by (simp add: search_tree_def)

lemma search_tree_Some_iff:
  fixes kx :: "'t \<Rightarrow> 'k::linorder"
  assumes "sorted_tree (<) kx data"
  shows "search_tree (<) kx data k = Some i \<longleftrightarrow> i < length data \<and> kx (data ! i) = k"
  using search_tree_SomeD search_tree_SomeI [OF assms] by metis

lemma search_tree_None_iff:
  fixes kx :: "'t \<Rightarrow> 'k::linorder"
  assumes "sorted_tree (<) kx data"
  shows "search_tree (<) kx data k = None \<longleftrightarrow> k \<notin> kx ` set data"
proof
  assume n: "search_tree (<) kx data k = None"
  show "k \<notin> kx ` set data"
  proof
    assume "k \<in> kx ` set data"
    then obtain i where "i < length data" "kx (data ! i) = k"
      by (auto simp: in_set_conv_nth)
    with search_tree_SomeI [OF assms] n show False by fastforce
  qed
next
  assume "k \<notin> kx ` set data"
  then show "search_tree (<) kx data k = None"
    using search_tree_SomeD [of kx data k] by (cases "search_tree (<) kx data k") auto
qed

lemma search_tree_elem:
  fixes kx :: "'t \<Rightarrow> 'k::linorder"
  assumes "sorted_tree (<) kx data" "x \<in> set data"
  shows "\<exists>i. search_tree (<) kx data (kx x) = Some i \<and> data ! i = x"
proof -
  from assms(2) obtain i where "i < length data" "data ! i = x" by (auto simp: in_set_conv_nth)
  with search_tree_SomeI [OF assms(1)] show ?thesis by blast
qed

lemma insert_tree_new:
  fixes kx :: "'t \<Rightarrow> 'k::linorder"
  assumes "sorted_tree (<) kx data" "search_tree (<) kx data (kx item) = None"
  shows "set (insert_tree (<) kx data item) = insert item (set data)"
    and "sorted_tree (<) kx (insert_tree (<) kx data item)"
proof -
  have nx: "\<forall>x\<in>set data. kx x < kx item \<or> kx item < kx x"
    using assms by (auto simp: search_tree_None_iff)
  have "set (takeWhile (\<lambda>obj. kx obj < kx item) data) \<union> set (dropWhile (\<lambda>obj. kx obj < kx item) data)
          = set data" by (simp only: set_append [symmetric] takeWhile_dropWhile_id)
  then show "set (insert_tree (<) kx data item) = insert item (set data)"
    by (simp add: insert_tree_absent(1) [OF swo_less assms(1) nx])
  show "sorted_tree (<) kx (insert_tree (<) kx data item)"
    by (rule insert_tree_absent(2) [OF swo_less assms(1) nx])
qed

lemma remove_tree_snd: "snd (remove_tree kx data k) = filter (\<lambda>obj. kx obj \<noteq> k) data"
  by (simp add: remove_tree_def Let_def)

lemma remove_tree_fst: "fst (remove_tree kx data k) \<longleftrightarrow> k \<in> kx ` set data"
proof -
  have "length (filter (\<lambda>obj. kx obj \<noteq> k) data) = length data
        \<longleftrightarrow> filter (\<lambda>obj. \<not> kx obj \<noteq> k) data = []"
    using sum_length_filter_compl [of "\<lambda>obj. kx obj \<noteq> k" data] by auto
  then show ?thesis by (auto simp: remove_tree_def Let_def filter_empty_conv)
qed

lemma remove_tree_eq:
  "remove_tree kx data k = (k \<in> kx ` set data, filter (\<lambda>obj. kx obj \<noteq> k) data)"
  using remove_tree_fst [of kx data k] remove_tree_snd [of kx data k]
  by (cases "remove_tree kx data k") simp

lemma sorted_tree_filter: "sorted_tree cmp kx data \<Longrightarrow> sorted_tree cmp kx (filter P data)"
  by (simp add: sorted_tree_def sorted_wrt_filter)

lemma map_key_update:
  assumes "kx x = kx (data ! i)"
  shows "map kx (data[i := x]) = map kx data"
proof (rule nth_equalityI)
  show "length (map kx (data[i := x])) = length (map kx data)" by simp
next
  fix j assume "j < length (map kx (data[i := x]))"
  then have "j < length data" by simp
  then show "map kx (data[i := x]) ! j = map kx data ! j"
    using assms by (cases "j = i") simp_all
qed

lemma sorted_tree_update:
  fixes kx :: "'t \<Rightarrow> 'k::linorder"
  shows "sorted_tree (<) kx data \<Longrightarrow> kx x = kx (data ! i) \<Longrightarrow> sorted_tree (<) kx (data[i := x])"
  by (simp add: sorted_tree_less_map map_key_update)

lemma update_as_map:
  fixes kx :: "'t \<Rightarrow> 'k::linorder"
  assumes "sorted_tree (<) kx data" "i < length data"
  shows "data[i := f (data ! i)] = map (\<lambda>x. if kx x = kx (data ! i) then f x else x) data"
proof (rule nth_equalityI)
  show "length (data[i := f (data ! i)]) = length (map (\<lambda>x. if kx x = kx (data ! i) then f x else x) data)"
    by simp
next
  fix j assume "j < length (data[i := f (data ! i)])"
  then have j: "j < length data" by simp
  show "data[i := f (data ! i)] ! j = map (\<lambda>x. if kx x = kx (data ! i) then f x else x) data ! j"
  proof (cases "j = i")
    case True
    with j show ?thesis by simp
  next
    case False
    with sorted_tree_index_unique [OF assms(1) j assms(2)] have "kx (data ! j) \<noteq> kx (data ! i)"
      by blast
    with False j show ?thesis by simp
  qed
qed

section \<open>Group membership: the loops over member ids\<close>

lemma set_members_group_keys:
  "map id_ind (set_members_group gid mids inds) = map id_ind inds"
proof (induction mids arbitrary: inds)
  case Nil
  then show ?case by simp
next
  case (Cons mid mids)
  show ?case
  proof (cases "search_tree (<) id_ind inds mid")
    case None
    with Cons show ?thesis by simp
  next
    case (Some i)
    have "map id_ind (inds[i := (inds ! i)\<lparr>current_group_id := gid\<rparr>]) = map id_ind inds"
      by (rule map_key_update) simp
    with Cons Some show ?thesis by simp
  qed
qed

lemma set_members_group_length [simp]:
  "length (set_members_group gid mids inds) = length inds"
  using set_members_group_keys [of gid mids inds] by (metis length_map)

lemma set_members_group_sorted:
  "sorted_tree (<) id_ind inds \<Longrightarrow> sorted_tree (<) id_ind (set_members_group gid mids inds)"
  by (simp add: sorted_tree_less_map set_members_group_keys)

lemma set_members_group_map:
  assumes "sorted_tree (<) id_ind inds"
  shows "set_members_group gid mids inds =
           map (\<lambda>ind. if id_ind ind \<in> set mids then ind\<lparr>current_group_id := gid\<rparr> else ind) inds"
  using assms
proof (induction mids arbitrary: inds)
  case Nil
  then show ?case by (simp add: map_idI)
next
  case (Cons mid mids)
  define inds1 where "inds1 =
    (case search_tree (<) id_ind inds mid of
       None \<Rightarrow> inds
     | Some i \<Rightarrow> inds[i := (inds ! i)\<lparr>current_group_id := gid\<rparr>])"
  have one: "inds1 = map (\<lambda>ind. if id_ind ind = mid then ind\<lparr>current_group_id := gid\<rparr> else ind) inds"
  proof (cases "search_tree (<) id_ind inds mid")
    case None
    then have "mid \<notin> id_ind ` set inds" using Cons.prems by (simp add: search_tree_None_iff)
    then have "map (\<lambda>ind. if id_ind ind = mid then ind\<lparr>current_group_id := gid\<rparr> else ind) inds = inds"
      by (intro map_idI) auto
    with None show ?thesis by (simp add: inds1_def)
  next
    case (Some i)
    then have i: "i < length inds" "id_ind (inds ! i) = mid"
      using search_tree_SomeD [of id_ind inds mid i] by simp_all
    from update_as_map [OF Cons.prems i(1), of "\<lambda>x. x\<lparr>current_group_id := gid\<rparr>"] i(2) Some
    show ?thesis by (simp add: inds1_def)
  qed
  have "map id_ind inds1 = map id_ind inds" by (simp add: one o_def if_distrib cong: if_cong)
  then have srt1: "sorted_tree (<) id_ind inds1"
    using Cons.prems by (simp add: sorted_tree_less_map)
  have "set_members_group gid (mid # mids) inds = set_members_group gid mids inds1"
    by (simp add: inds1_def)
  also have "\<dots> = map (\<lambda>ind. if id_ind ind \<in> set mids then ind\<lparr>current_group_id := gid\<rparr> else ind) inds1"
    by (rule Cons.IH [OF srt1])
  also have "\<dots> = map (\<lambda>ind. if id_ind ind \<in> set (mid # mids) then ind\<lparr>current_group_id := gid\<rparr> else ind) inds"
    by (simp add: one)
  finally show ?case .
qed

lemma delete_group_found:
  assumes "search_tree (<) group_id (groups_tree app) gid = Some g"
  shows "delete_group gid app =
           (None, app\<lparr>individuals_tree :=
                         set_members_group [] (member_ids (groups_tree app ! g)) (individuals_tree app),
                      groups_tree := filter (\<lambda>x. group_id x \<noteq> gid) (groups_tree app)\<rparr>)"
proof -
  from search_tree_SomeD [OF assms] have "gid \<in> group_id ` set (groups_tree app)"
    by (metis imageI nth_mem)
  then show ?thesis using assms by (simp add: delete_group_def remove_tree_eq)
qed

lemma delete_group_not_found:
  "search_tree (<) group_id (groups_tree app) gid = None \<Longrightarrow> delete_group gid app = (Some NotFound, app)"
  by (simp add: delete_group_def)

lemma fold_insort_insert_set:
  "set (fold insort_insert xs acc) = set xs \<union> set acc"
  by (induction xs arbitrary: acc) (auto simp: set_insort_insert)

lemma fold_insort_insert_sorted:
  "sorted acc \<Longrightarrow> sorted (fold insort_insert xs acc)"
  by (induction xs arbitrary: acc) (auto simp: sorted_insort_insert)

lemma fold_insort_insert_distinct:
  "distinct acc \<Longrightarrow> distinct (fold insort_insert xs acc)"
  by (induction xs arbitrary: acc) (auto simp: distinct_insort_insert)

lemma set_merged_member_ids [simp]: "set (merged_member_ids ids1 ids2) = set ids1 \<union> set ids2"
  by (auto simp: merged_member_ids_def fold_insort_insert_set)

lemma sorted_merged_member_ids: "sorted (merged_member_ids ids1 ids2)"
  by (simp add: merged_member_ids_def fold_insort_insert_sorted)

lemma distinct_merged_member_ids: "distinct (merged_member_ids ids1 ids2)"
  by (simp add: merged_member_ids_def fold_insort_insert_distinct)

lemma length_merged_member_ids:
  "length (merged_member_ids ids1 ids2) = card (set ids1 \<union> set ids2)"
  using distinct_card [OF distinct_merged_member_ids, of ids1 ids2] by simp

lemma merged_member_ids_sorted_list_of_set:
  "merged_member_ids ids1 ids2 = sorted_list_of_set (set ids1 \<union> set ids2)"
  by (metis sorted_list_of_set.idem_if_sorted_distinct sorted_merged_member_ids
      distinct_merged_member_ids set_merged_member_ids)

lemma Group_ctor_merged:
  "member_ids (Group_ctor gid gname (merged_member_ids ids1 ids2) goal) = merged_member_ids ids1 ids2"
  by (simp add: Group_ctor_def sorted_sort_id sorted_merged_member_ids
      remdups_adj_distinct distinct_merged_member_ids)

section \<open>Merging groups\<close>

text \<open>
  Claim C2 (the cap of a merge is checked before anything is deleted). When the two
  groups are found, their ids differ and the union of their member ids has more than
  \<open>MAX_MEMBERS\<close> elements, \<open>merge_groups\<close> reports \<open>TooManyMembers\<close> and returns the
  state it was given: every group and every individual is as before the call.
\<close>

theorem merge_groups_cap_atomic:
  assumes "search_tree (<) group_id (groups_tree app) group_id_1 = Some group1"
    and "search_tree (<) group_id (groups_tree app) group_id_2 = Some group2"
    and "group_id_1 \<noteq> group_id_2"
    and "card (set (member_ids (groups_tree app ! group1))
               \<union> set (member_ids (groups_tree app ! group2))) > MAX_MEMBERS"
  shows "merge_groups group_id_1 group_id_2 new_group_name new_weekly_goal app
           = (Some TooManyMembers, app)"
  using assms by (simp add: merge_groups_def length_merged_member_ids)

lemma search_two_full_groups:
  "search_tree (<) group_id (groups_tree two_full_groups) ''G1'' = Some 0"
  "search_tree (<) group_id (groups_tree two_full_groups) ''G2'' = Some 1"
  by (simp_all add: two_full_groups_def team_def Group_ctor_def search_tree_def find_insert_pos_def)

theorem merge_groups_cap_atomic_witness:
  "search_tree (<) group_id (groups_tree two_full_groups) ''G1'' = Some 0
   \<and> search_tree (<) group_id (groups_tree two_full_groups) ''G2'' = Some 1
   \<and> ''G1'' \<noteq> ''G2''
   \<and> card (set (member_ids (groups_tree two_full_groups ! 0))
            \<union> set (member_ids (groups_tree two_full_groups ! 1))) > MAX_MEMBERS
   \<and> merge_groups ''G1'' ''G2'' ''Combined'' 500 two_full_groups
       = (Some TooManyMembers, two_full_groups)"
proof -
  have c: "card (set (member_ids (groups_tree two_full_groups ! 0))
            \<union> set (member_ids (groups_tree two_full_groups ! 1))) > MAX_MEMBERS"
    by (simp add: two_full_groups_def team_def Group_ctor_def MAX_MEMBERS_def)
  have n: "''G1'' \<noteq> ''G2''" by simp
  from merge_groups_cap_atomic [OF search_two_full_groups n c] search_two_full_groups n c
  show ?thesis by blast
qed

lemma search_tree_filter_None:
  fixes kx :: "'t \<Rightarrow> 'k::linorder"
  assumes "sorted_tree (<) kx data"
  shows "search_tree (<) kx (filter (\<lambda>x. kx x \<noteq> k) data) k = None"
  using sorted_tree_filter [OF assms, of "\<lambda>x. kx x \<noteq> k"]
  by (auto simp: search_tree_None_iff)

lemma search_tree_filter_Some:
  fixes kx :: "'t \<Rightarrow> 'k::linorder"
  assumes "sorted_tree (<) kx data" "search_tree (<) kx data k = Some i" "k \<noteq> k'"
  shows "\<exists>j. search_tree (<) kx (filter (\<lambda>x. kx x \<noteq> k') data) k = Some j
             \<and> filter (\<lambda>x. kx x \<noteq> k') data ! j = data ! i"
proof -
  from search_tree_SomeD [OF assms(2)] have i: "i < length data" "kx (data ! i) = k" by simp_all
  then have "data ! i \<in> set (filter (\<lambda>x. kx x \<noteq> k') data)" using assms(3) by simp
  from search_tree_elem [OF sorted_tree_filter [OF assms(1)] this] i(2)
  show ?thesis by simp
qed

text \<open>
  Claim C10, as stated for every state that holds the group, fails for a group with
  more than \<open>MAX_MEMBERS\<close> members, which \<^verbatim>\<open>_load_data\<close> can have put in the store:
  there \<open>merge_groups\<close> stops at its cap test with \<open>TooManyMembers\<close>, before the first
  delete, and returns the state as it was.
\<close>

theorem merge_groups_self_counterexample:
  "well_formed six_in_one
   \<and> membership_symmetric six_in_one
   \<and> search_tree (<) group_id (groups_tree six_in_one) ''G1'' = Some 0
   \<and> member_ids (groups_tree six_in_one ! 0) = [1, 2, 3, 4, 5, 6]
   \<and> merge_groups ''G1'' ''G1'' ''Again'' 100 six_in_one = (Some TooManyMembers, six_in_one)"
  by code_simp

text \<open>
  Claim C10, amended (merging a group with itself). In a well-formed state that holds
  a group \<open>gid\<close> with at most \<open>MAX_MEMBERS\<close> distinct members, \<open>merge_groups gid gid\<close>
  fails, and the state it leaves is the one after the first \<open>delete_group gid\<close>: that
  delete succeeds, the second one reports \<open>NotFound\<close>, the group is gone and no group is
  put in its place, and the \<^verbatim>\<open>current_group_id\<close> of each of its members is empty.
\<close>

theorem merge_groups_self:
  assumes "well_formed app"
    and "search_tree (<) group_id (groups_tree app) gid = Some g"
    and "card (set (member_ids (groups_tree app ! g))) \<le> MAX_MEMBERS"
  shows "fst (merge_groups gid gid new_group_name new_weekly_goal app) = Some InconsistentState
       \<and> snd (merge_groups gid gid new_group_name new_weekly_goal app) = snd (delete_group gid app)
       \<and> fst (delete_group gid app) = None
       \<and> fst (delete_group gid (snd (delete_group gid app))) = Some NotFound
       \<and> groups_tree (snd (merge_groups gid gid new_group_name new_weekly_goal app))
           = filter (\<lambda>x. group_id x \<noteq> gid) (groups_tree app)
       \<and> search_tree (<) group_id
           (groups_tree (snd (merge_groups gid gid new_group_name new_weekly_goal app))) gid = None
       \<and> individuals_tree (snd (merge_groups gid gid new_group_name new_weekly_goal app))
           = map (\<lambda>ind. if id_ind ind \<in> set (member_ids (groups_tree app ! g))
                        then ind\<lparr>current_group_id := []\<rparr> else ind)
               (individuals_tree app)"
proof -
  define app1 where "app1 =
    app\<lparr>individuals_tree :=
          set_members_group [] (member_ids (groups_tree app ! g)) (individuals_tree app),
        groups_tree := filter (\<lambda>x. group_id x \<noteq> gid) (groups_tree app)\<rparr>"
  have d1: "delete_group gid app = (None, app1)"
    unfolding app1_def by (rule delete_group_found [OF assms(2)])
  have gone: "search_tree (<) group_id (groups_tree app1) gid = None"
    using assms(1) by (simp add: app1_def well_formed_def search_tree_filter_None)
  then have d2: "delete_group gid app1 = (Some NotFound, app1)"
    by (rule delete_group_not_found)
  have len: "\<not> length (merged_member_ids (member_ids (groups_tree app ! g))
                 (member_ids (groups_tree app ! g))) > MAX_MEMBERS"
    using assms(3) by (simp add: length_merged_member_ids)
  have m: "merge_groups gid gid new_group_name new_weekly_goal app = (Some InconsistentState, app1)"
    using assms(2) len d1 d2 by (simp add: merge_groups_def)
  have inds: "individuals_tree app1
           = map (\<lambda>ind. if id_ind ind \<in> set (member_ids (groups_tree app ! g))
                        then ind\<lparr>current_group_id := []\<rparr> else ind)
               (individuals_tree app)"
    using assms(1) by (simp add: app1_def well_formed_def set_members_group_map)
  show ?thesis
    using m d1 d2 gone inds by (simp add: app1_def)
qed

lemma search_two_pairs:
  "search_tree (<) group_id (groups_tree two_pairs) ''G1'' = Some 0"
  "search_tree (<) group_id (groups_tree two_pairs) ''G2'' = Some 1"
  by (simp_all add: two_pairs_def team_def Group_ctor_def search_tree_def find_insert_pos_def)

lemma well_formed_two_pairs: "well_formed two_pairs"
  by (simp add: well_formed_def sorted_tree_def two_pairs_def team_def member_def
      Group_ctor_def Individual_ctor_def)

theorem merge_groups_self_witness:
  "well_formed two_pairs
   \<and> search_tree (<) group_id (groups_tree two_pairs) ''G1'' = Some 0
   \<and> card (set (member_ids (groups_tree two_pairs ! 0))) \<le> MAX_MEMBERS
   \<and> fst (merge_groups ''G1'' ''G1'' ''Combined'' 500 two_pairs) = Some InconsistentState
   \<and> snd (merge_groups ''G1'' ''G1'' ''Combined'' 500 two_pairs)
       = \<lparr>individuals_tree = [member 1 [], member 2 [], member 3 ''G2'', member 4 ''G2''],
          groups_tree = [team ''G2'' [3, 4]]\<rparr>"
proof -
  have c: "card (set (member_ids (groups_tree two_pairs ! 0))) \<le> MAX_MEMBERS"
    by (simp add: two_pairs_def team_def Group_ctor_def MAX_MEMBERS_def)
  note r = merge_groups_self [OF well_formed_two_pairs search_two_pairs(1) c,
      of "''Combined''" 500]
  from r have "groups_tree (snd (merge_groups ''G1'' ''G1'' ''Combined'' 500 two_pairs))
             = filter (\<lambda>x. group_id x \<noteq> ''G1'') (groups_tree two_pairs)"
    by blast
  also have "\<dots> = [team ''G2'' [3, 4]]"
    by (simp add: two_pairs_def team_def Group_ctor_def)
  finally have g: "groups_tree (snd (merge_groups ''G1'' ''G1'' ''Combined'' 500 two_pairs))
             = [team ''G2'' [3, 4]]" .
  from r have "individuals_tree (snd (merge_groups ''G1'' ''G1'' ''Combined'' 500 two_pairs))
             = map (\<lambda>ind. if id_ind ind \<in> set (member_ids (groups_tree two_pairs ! 0))
                        then ind\<lparr>current_group_id := []\<rparr> else ind)
               (individuals_tree two_pairs)"
    by blast
  also have "map (\<lambda>ind. if id_ind ind \<in> set (member_ids (groups_tree two_pairs ! 0))
                        then ind\<lparr>current_group_id := []\<rparr> else ind)
               (individuals_tree two_pairs)
          = [member 1 [], member 2 [], member 3 ''G2'', member 4 ''G2'']"
    by (simp add: two_pairs_def team_def Group_ctor_def member_def Individual_ctor_def)
  finally have i: "individuals_tree (snd (merge_groups ''G1'' ''G1'' ''Combined'' 500 two_pairs))
             = [member 1 [], member 2 [], member 3 ''G2'', member 4 ''G2'']" .
  have "snd (merge_groups ''G1'' ''G1'' ''Combined'' 500 two_pairs)
       = \<lparr>individuals_tree = [member 1 [], member 2 [], member 3 ''G2'', member 4 ''G2''],
          groups_tree = [team ''G2'' [3, 4]]\<rparr>"
    using g i by (cases "snd (merge_groups ''G1'' ''G1'' ''Combined'' 500 two_pairs)") simp
  with r well_formed_two_pairs search_two_pairs(1) c show ?thesis by blast
qed

text \<open>
  Claim C6 (a merge that succeeds). In a well-formed state where two groups with
  different ids are found and the union of their member ids has at most \<open>MAX_MEMBERS\<close>
  elements, \<open>merge_groups\<close> succeeds. Afterwards the search for the first id finds a
  group with the new name and goal whose member ids are the union, sorted and without
  duplicates; the search for the second id finds nothing; every stored individual whose
  id is in the union has the first id as its \<^verbatim>\<open>current_group_id\<close>; and no individual is
  added or removed.
\<close>

theorem merge_groups_success:
  assumes "well_formed app"
    and "search_tree (<) group_id (groups_tree app) group_id_1 = Some group1"
    and "search_tree (<) group_id (groups_tree app) group_id_2 = Some group2"
    and "group_id_1 \<noteq> group_id_2"
    and "card (set (member_ids (groups_tree app ! group1))
               \<union> set (member_ids (groups_tree app ! group2))) \<le> MAX_MEMBERS"
  shows "fst (merge_groups group_id_1 group_id_2 new_group_name new_weekly_goal app) = None
       \<and> (\<exists>p. search_tree (<) group_id
                 (groups_tree (snd (merge_groups group_id_1 group_id_2 new_group_name new_weekly_goal app)))
                 group_id_1 = Some p
              \<and> groups_tree (snd (merge_groups group_id_1 group_id_2 new_group_name new_weekly_goal app)) ! p
                  = \<lparr>group_id = group_id_1, group_name = new_group_name,
                     member_ids = sorted_list_of_set
                        (set (member_ids (groups_tree app ! group1))
                         \<union> set (member_ids (groups_tree app ! group2))),
                     weekly_group_goal = new_weekly_goal, total_weekly_steps = 0\<rparr>)
       \<and> search_tree (<) group_id
            (groups_tree (snd (merge_groups group_id_1 group_id_2 new_group_name new_weekly_goal app)))
            group_id_2 = None
       \<and> (\<forall>m \<in> set (member_ids (groups_tree app ! group1))
                  \<union> set (member_ids (groups_tree app ! group2)).
            \<forall>ind \<in> set (individuals_tree
                          (snd (merge_groups group_id_1 group_id_2 new_group_name new_weekly_goal app))).
              id_ind ind = m \<longrightarrow> current_group_id ind = group_id_1)
       \<and> map id_ind (individuals_tree
                        (snd (merge_groups group_id_1 group_id_2 new_group_name new_weekly_goal app)))
           = map id_ind (individuals_tree app)
       \<and> well_formed (snd (merge_groups group_id_1 group_id_2 new_group_name new_weekly_goal app))"
proof -
  let ?gs = "groups_tree app"
  let ?m1 = "member_ids (?gs ! group1)"
  let ?m2 = "member_ids (?gs ! group2)"
  let ?merged = "merged_member_ids ?m1 ?m2"
  let ?G = "Group_ctor group_id_1 new_group_name ?merged new_weekly_goal"
  from assms(1) have si: "sorted_tree (<) id_ind (individuals_tree app)"
    and sg: "sorted_tree (<) group_id ?gs"
    by (simp_all add: well_formed_def)
  define gs1 where "gs1 = filter (\<lambda>x. group_id x \<noteq> group_id_1) ?gs"
  define inds1 where "inds1 = set_members_group [] ?m1 (individuals_tree app)"
  define app1 where "app1 = app\<lparr>individuals_tree := inds1, groups_tree := gs1\<rparr>"
  have d1: "delete_group group_id_1 app = (None, app1)"
    unfolding app1_def inds1_def gs1_def by (rule delete_group_found [OF assms(2)])
  have sg1: "sorted_tree (<) group_id gs1"
    unfolding gs1_def by (rule sorted_tree_filter [OF sg])
  from search_tree_filter_Some [OF sg assms(3), of group_id_1] assms(4)
  obtain j where j: "search_tree (<) group_id gs1 group_id_2 = Some j" "gs1 ! j = ?gs ! group2"
    by (auto simp: gs1_def)
  define gs2 where "gs2 = filter (\<lambda>x. group_id x \<noteq> group_id_2) gs1"
  define inds2 where "inds2 = set_members_group [] ?m2 inds1"
  define app2 where "app2 = app1\<lparr>individuals_tree := inds2, groups_tree := gs2\<rparr>"
  have d2: "delete_group group_id_2 app1 = (None, app2)"
    using delete_group_found [of app1 group_id_2 j] j
    by (simp add: app1_def app2_def inds2_def gs2_def)
  have sg2: "sorted_tree (<) group_id gs2"
    unfolding gs2_def by (rule sorted_tree_filter [OF sg1])
  have no1: "search_tree (<) group_id gs2 (group_id ?G) = None"
    using sg2 by (auto simp: search_tree_None_iff gs2_def gs1_def Group_ctor_def)
  define gs3 where "gs3 = insert_tree (<) group_id gs2 ?G"
  define inds3 where "inds3 = set_members_group group_id_1 ?merged inds2"
  define app3 where "app3 = app2\<lparr>groups_tree := gs3, individuals_tree := inds3\<rparr>"
  have len: "\<not> length ?merged > MAX_MEMBERS"
    using assms(5) by (simp add: length_merged_member_ids)
  have m: "merge_groups group_id_1 group_id_2 new_group_name new_weekly_goal app = (None, app3)"
    using assms(2,3) len d1 d2
    by (simp add: merge_groups_def Let_def app3_def gs3_def inds3_def app2_def app1_def)
  have set3: "set gs3 = insert ?G (set gs2)" and sg3: "sorted_tree (<) group_id gs3"
    unfolding gs3_def by (rule insert_tree_new [OF sg2 no1])+
  have "?G \<in> set gs3" by (simp add: set3)
  from search_tree_elem [OF sg3 this]
  obtain p where p: "search_tree (<) group_id gs3 group_id_1 = Some p" "gs3 ! p = ?G"
    by (auto simp: Group_ctor_def)
  have G: "?G = \<lparr>group_id = group_id_1, group_name = new_group_name,
                 member_ids = sorted_list_of_set (set ?m1 \<union> set ?m2),
                 weekly_group_goal = new_weekly_goal, total_weekly_steps = 0\<rparr>"
    using Group_ctor_merged [of group_id_1 new_group_name ?m1 ?m2 new_weekly_goal]
    by (simp add: Group_ctor_def merged_member_ids_sorted_list_of_set)
  have no2: "search_tree (<) group_id gs3 group_id_2 = None"
    using sg3 assms(4) by (auto simp: search_tree_None_iff set3 gs2_def Group_ctor_def)
  have keys: "map id_ind inds3 = map id_ind (individuals_tree app)"
    by (simp add: inds3_def inds2_def inds1_def set_members_group_keys)
  have si2: "sorted_tree (<) id_ind inds2"
    using si by (simp add: inds2_def inds1_def set_members_group_sorted)
  have si3: "sorted_tree (<) id_ind inds3"
    using si keys by (simp add: sorted_tree_less_map)
  have i3: "inds3 = map (\<lambda>ind. if id_ind ind \<in> set ?merged
                              then ind\<lparr>current_group_id := group_id_1\<rparr> else ind) inds2"
    unfolding inds3_def by (rule set_members_group_map [OF si2])
  have mem: "\<forall>m \<in> set ?m1 \<union> set ?m2. \<forall>ind \<in> set inds3.
               id_ind ind = m \<longrightarrow> current_group_id ind = group_id_1"
    by (auto simp: i3)
  have wf: "well_formed app3"
    using si3 sg3 by (simp add: well_formed_def app3_def)
  have sel: "groups_tree app3 = gs3" "individuals_tree app3 = inds3"
    by (simp_all add: app3_def)
  show ?thesis
    unfolding m fst_conv snd_conv sel
    using p G no2 mem keys wf by (intro conjI exI [of _ p]) simp_all
qed

theorem merge_groups_success_witness:
  "well_formed two_pairs
   \<and> search_tree (<) group_id (groups_tree two_pairs) ''G1'' = Some 0
   \<and> search_tree (<) group_id (groups_tree two_pairs) ''G2'' = Some 1
   \<and> ''G1'' \<noteq> ''G2''
   \<and> card (set (member_ids (groups_tree two_pairs ! 0))
            \<union> set (member_ids (groups_tree two_pairs ! 1))) \<le> MAX_MEMBERS
   \<and> fst (merge_groups ''G1'' ''G2'' ''Combined'' 500 two_pairs) = None
   \<and> search_tree (<) group_id
        (groups_tree (snd (merge_groups ''G1'' ''G2'' ''Combined'' 500 two_pairs))) ''G2'' = None
   \<and> map id_ind (individuals_tree (snd (merge_groups ''G1'' ''G2'' ''Combined'' 500 two_pairs)))
       = [1, 2, 3, 4]"
proof -
  have c: "card (set (member_ids (groups_tree two_pairs ! 0))
            \<union> set (member_ids (groups_tree two_pairs ! 1))) \<le> MAX_MEMBERS"
    by (simp add: two_pairs_def team_def Group_ctor_def MAX_MEMBERS_def)
  have n: "''G1'' \<noteq> ''G2''" by simp
  have k: "map id_ind (individuals_tree two_pairs) = [1, 2, 3, 4]"
    by (simp add: two_pairs_def member_def Individual_ctor_def)
  note r = merge_groups_success [OF well_formed_two_pairs search_two_pairs n c,
      of "''Combined''" 500]
  from r k have "map id_ind (individuals_tree (snd (merge_groups ''G1'' ''G2'' ''Combined'' 500 two_pairs)))
       = [1, 2, 3, 4]" by simp
  with r well_formed_two_pairs search_two_pairs n c show ?thesis by blast
qed

text \<open>Scenario B of the specification, computed by the model.\<close>

lemma scenario_B:
  "merge_groups ''G1'' ''G2'' ''Combined'' 500 two_pairs
     = (None,
        \<lparr>individuals_tree = [member 1 ''G1'', member 2 ''G1'', member 3 ''G1'', member 4 ''G1''],
         groups_tree = [Group_ctor ''G1'' ''Combined'' [1, 2, 3, 4] 500]\<rparr>)"
  by code_simp

section \<open>Creating a group: the member cap\<close>

text \<open>Scenario A of the specification, computed by the model.\<close>

lemma scenario_A:
  "create_group ''G1'' ''Team'' [1, 2, 3, 4, 5] 1000 five_ungrouped
     = (None,
        \<lparr>individuals_tree = [member 1 ''G1'', member 2 ''G1'', member 3 ''G1'',
                             member 4 ''G1'', member 5 ''G1''],
         groups_tree = [team ''G1'' [1, 2, 3, 4, 5]]\<rparr>)"
  by code_simp

text \<open>
  Claim C5, as stated, fails: a request for more than \<open>MAX_MEMBERS\<close> ids under a group id
  that is already present is answered with the duplicate-id error, not with
  \<open>TooManyMembers\<close>, because \<open>create_group\<close> tests the group id first.
\<close>

theorem create_group_cap_counterexample:
  "length [1, 2, 3, 4, 5, 6 :: int] > MAX_MEMBERS
   \<and> create_group ''G1'' ''Team'' [1, 2, 3, 4, 5, 6] 1000 two_pairs
       = (Some DuplicateGroupId, two_pairs)"
  by (simp add: create_group_def search_two_pairs MAX_MEMBERS_def)

text \<open>
  Claim C5, amended. A request whose raw list of candidate ids is longer than
  \<open>MAX_MEMBERS\<close> always fails and returns the state unchanged (no group is created, no
  individual is modified), whatever filtering would have left: the error is
  \<open>TooManyMembers\<close> when no group has the requested id, and the duplicate-id error when
  one has.
\<close>

theorem create_group_cap:
  assumes "length mids > MAX_MEMBERS"
  shows "create_group gid gname mids goal app
           = (Some (if search_tree (<) group_id (groups_tree app) gid = None
                    then TooManyMembers else DuplicateGroupId), app)"
  using assms by (simp add: create_group_def)

theorem create_group_cap_witness:
  "length [1, 2, 3, 4, 5, 6 :: int] > MAX_MEMBERS
   \<and> create_group ''G1'' ''Team'' [1, 2, 3, 4, 5, 6] 1000 five_ungrouped
       = (Some TooManyMembers, five_ungrouped)"
proof -
  have l: "length [1, 2, 3, 4, 5, 6 :: int] > MAX_MEMBERS" by (simp add: MAX_MEMBERS_def)
  have s: "search_tree (<) group_id (groups_tree five_ungrouped) ''G1'' = None"
    by (simp add: five_ungrouped_def search_tree_def find_insert_pos_def)
  from create_group_cap [OF l, of "''G1''" "''Team''" 1000 five_ungrouped] s l
  show ?thesis by simp
qed

section \<open>Ranking: the daily top three\<close>

lemma eligible_individuals_distinct: "distinct (eligible_individuals app)"
  by (simp add: eligible_individuals_def)

lemma get_top_3_take:
  "get_top_3 std_sort app =
     take 3 (std_sort (more_steps_today (individuals_tree app)) (eligible_individuals app))"
  by (simp add: get_top_3_def Let_def min_def)

lemma set_get_top_3:
  assumes "sorts (more_steps_today (individuals_tree app)) (eligible_individuals app)
             (std_sort (more_steps_today (individuals_tree app)) (eligible_individuals app))"
  shows "set (get_top_3 std_sort app) \<subseteq> set (eligible_individuals app)"
    and "length (eligible_individuals app) \<le> 3 \<Longrightarrow>
         set (get_top_3 std_sort app) = set (eligible_individuals app)"
proof -
  let ?s = "std_sort (more_steps_today (individuals_tree app)) (eligible_individuals app)"
  from assms have m: "mset ?s = mset (eligible_individuals app)" by (simp add: sorts_def)
  then have s: "set ?s = set (eligible_individuals app)" by (rule mset_eq_setD)
  from m have l: "length ?s = length (eligible_individuals app)" by (rule mset_eq_length)
  show "set (get_top_3 std_sort app) \<subseteq> set (eligible_individuals app)"
    using s set_take_subset [of 3 ?s] by (simp add: get_top_3_take)
  show "set (get_top_3 std_sort app) = set (eligible_individuals app)"
    if "length (eligible_individuals app) \<le> 3"
    using that s l by (simp add: get_top_3_take)
qed

text \<open>
  Claim C4 (who is eligible). A stored individual is among the eligible ones that
  \<open>get_top_3\<close> sorts exactly when its list of step counts is not empty and the last
  entry is at least its daily goal; no other entry is looked at. Whatever
  \<^verbatim>\<open>std::sort\<close> does within its contract, \<open>get_top_3\<close> returns eligible individuals
  only, and all of them when there are at most three.
\<close>

theorem top_3_eligibility:
  assumes "sorts (more_steps_today (individuals_tree app)) (eligible_individuals app)
             (std_sort (more_steps_today (individuals_tree app)) (eligible_individuals app))"
  shows "(p \<in> set (eligible_individuals app) \<longleftrightarrow>
            p < length (individuals_tree app)
            \<and> weekly_step_count (individuals_tree app ! p) \<noteq> []
            \<and> last (weekly_step_count (individuals_tree app ! p))
                \<ge> daily_step_goal (individuals_tree app ! p))
       \<and> set (get_top_3 std_sort app) \<subseteq> set (eligible_individuals app)
       \<and> (length (eligible_individuals app) \<le> 3 \<longrightarrow>
            set (get_top_3 std_sort app) = set (eligible_individuals app))"
  using set_get_top_3 [where std_sort = std_sort and app = app, OF assms]
  by (auto simp: eligible_individuals_def met_daily_goal_def)

lemma eligible_scenario_C: "eligible_individuals scenario_C = [0]"
  by (simp add: eligible_individuals_def scenario_C_def met_daily_goal_def walker_def
      Individual_ctor_def upt_rec)

theorem top_3_eligibility_witness:
  "sorts (more_steps_today (individuals_tree scenario_C)) (eligible_individuals scenario_C)
     (stable_sort (more_steps_today (individuals_tree scenario_C)) (eligible_individuals scenario_C))
   \<and> 0 \<in> set (eligible_individuals scenario_C)
   \<and> 1 \<notin> set (eligible_individuals scenario_C)
   \<and> 2 \<notin> set (eligible_individuals scenario_C)
   \<and> set (get_top_3 stable_sort scenario_C) = {0}"
proof -
  have s: "sorts (more_steps_today (individuals_tree scenario_C)) (eligible_individuals scenario_C)
     (stable_sort (more_steps_today (individuals_tree scenario_C)) (eligible_individuals scenario_C))"
    by (simp add: eligible_scenario_C sorts_def stable_sort_def)
  have l: "length (eligible_individuals scenario_C) \<le> 3" by (simp add: eligible_scenario_C)
  have i: "individuals_tree scenario_C =
             [walker 1 5000 [3000, 3000, 3000, 3000, 3000, 3000, 9000],
              walker 2 5000 [9000, 9000, 9000, 9000, 9000, 9000, 3000],
              walker 3 5000 []]"
    by (simp add: scenario_C_def)
  have 0: "0 \<in> set (eligible_individuals scenario_C)"
    using top_3_eligibility [where std_sort = stable_sort and app = scenario_C and p = 0, OF s]
    by (simp add: i walker_def Individual_ctor_def)
  have 1: "1 \<notin> set (eligible_individuals scenario_C)"
    using top_3_eligibility [where std_sort = stable_sort and app = scenario_C and p = 1, OF s]
    by (simp add: i walker_def Individual_ctor_def)
  have 2: "2 \<notin> set (eligible_individuals scenario_C)"
    using top_3_eligibility [where std_sort = stable_sort and app = scenario_C and p = 2, OF s]
    by (simp add: i walker_def Individual_ctor_def)
  have t: "set (get_top_3 stable_sort scenario_C) = {0}"
    using top_3_eligibility [where std_sort = stable_sort and app = scenario_C and p = 0, OF s] l
    by (simp add: eligible_scenario_C)
  from s 0 1 2 t show ?thesis by blast
qed

lemma mset_insert_stable: "mset (insert_stable cmp x ys) = add_mset x (mset ys)"
  by (induction ys) simp_all

lemma set_insert_stable: "set (insert_stable cmp x ys) = insert x (set ys)"
  by (induction ys) auto

lemma sorted_insert_stable:
  assumes "strict_weak_order cmp" and "sorted_wrt (\<lambda>a b. \<not> cmp b a) ys"
  shows "sorted_wrt (\<lambda>a b. \<not> cmp b a) (insert_stable cmp x ys)"
  using assms(2)
proof (induction ys)
  case Nil
  then show ?case by simp
next
  case (Cons y ys)
  show ?case
  proof (cases "cmp y x")
    case True
    with Cons swo_asym [OF assms(1) True] show ?thesis
      by (auto simp: set_insert_stable)
  next
    case False
    have "\<not> cmp z x" if "z \<in> set ys" for z
    proof
      assume "cmp z x"
      from swo_cotrans [OF assms(1) this, of y] False have "cmp z y" by blast
      with that Cons.prems show False by auto
    qed
    with False Cons.prems show ?thesis by simp
  qed
qed

lemma stable_sort_sorts:
  assumes "strict_weak_order cmp"
  shows "sorts cmp xs (stable_sort cmp xs)"
proof -
  have "mset (foldr (insert_stable cmp) xs []) = mset xs
        \<and> sorted_wrt (\<lambda>a b. \<not> cmp b a) (foldr (insert_stable cmp) xs [])"
    by (induction xs) (simp_all add: mset_insert_stable sorted_insert_stable [OF assms])
  then show ?thesis by (simp add: sorts_def stable_sort_def)
qed

lemma more_steps_today_swo: "strict_weak_order (more_steps_today inds)"
  by (auto simp: strict_weak_order_def more_steps_today_def)

text \<open>
  Claim C3, as stated, fails in its tie-break: \<^verbatim>\<open>std::sort\<close> is not a stable sort.
  With seventeen stored individuals who all reach their goal with the same last-day
  step count, \<open>get_top_3\<close> under the library's sort returns the individuals stored at
  positions 8, 16 and 15 (ids 9, 17 and 16), not the first three of the store: the
  range is longer than 16, so it is partitioned, and the partition swaps equivalent
  elements. (On 16 or fewer eligible individuals the library only runs its insertion
  sort, which leaves ties in store order.)
\<close>

theorem get_top_3_ties_counterexample:
  "map id_ind (individuals_tree seventeen_tied)
     = [1, 2, 3, 4, 5, 6, 7, 8, 9, 10, 11, 12, 13, 14, 15, 16, 17]
   \<and> eligible_individuals seventeen_tied
       = [0, 1, 2, 3, 4, 5, 6, 7, 8, 9, 10, 11, 12, 13, 14, 15, 16]
   \<and> map (\<lambda>p. last (weekly_step_count (individuals_tree seventeen_tied ! p)))
         (eligible_individuals seventeen_tied) = replicate 17 9000
   \<and> gnu_sort (more_steps_today (individuals_tree seventeen_tied))
         (eligible_individuals seventeen_tied)
       = [8, 16, 15, 14, 13, 12, 11, 10, 9, 0, 7, 6, 5, 4, 3, 2, 1]
   \<and> get_top_3 gnu_sort seventeen_tied = [8, 16, 15]
   \<and> map (\<lambda>p. id_ind (individuals_tree seventeen_tied ! p)) (get_top_3 gnu_sort seventeen_tied)
       = [9, 17, 16]"
  by code_simp

text \<open>The library's sort keeps the contract of \<^verbatim>\<open>std::sort\<close> there, and leaves a short
  run of ties as it is.\<close>

lemma gnu_sort_seventeen_tied_sorts:
  "sorts (more_steps_today (individuals_tree seventeen_tied)) (eligible_individuals seventeen_tied)
     (gnu_sort (more_steps_today (individuals_tree seventeen_tied))
        (eligible_individuals seventeen_tied))"
  by code_simp

lemma gnu_sort_four_walkers: "get_top_3 gnu_sort four_walkers = [1, 2, 0]"
  by code_simp

lemma get_top_3_sorted_prefix:
  assumes "sorts (more_steps_today (individuals_tree app)) (eligible_individuals app)
             (std_sort (more_steps_today (individuals_tree app)) (eligible_individuals app))"
  shows "length (get_top_3 std_sort app) = min 3 (length (eligible_individuals app))
       \<and> length (get_top_3 std_sort app) \<le> 3
       \<and> distinct (get_top_3 std_sort app)
       \<and> set (get_top_3 std_sort app) \<subseteq> set (eligible_individuals app)
       \<and> sorted_wrt (\<lambda>a b. last (weekly_step_count (individuals_tree app ! a))
                            \<ge> last (weekly_step_count (individuals_tree app ! b)))
           (get_top_3 std_sort app)
       \<and> (\<forall>q \<in> set (eligible_individuals app) - set (get_top_3 std_sort app).
            \<forall>p \<in> set (get_top_3 std_sort app).
              last (weekly_step_count (individuals_tree app ! q))
                \<le> last (weekly_step_count (individuals_tree app ! p)))"
proof -
  let ?inds = "individuals_tree app"
  let ?s = "std_sort (more_steps_today ?inds) (eligible_individuals app)"
  let ?ge = "\<lambda>a b. last (weekly_step_count (?inds ! a)) \<ge> last (weekly_step_count (?inds ! b))"
  from assms have m: "mset ?s = mset (eligible_individuals app)"
    and o: "sorted_wrt (\<lambda>a b. \<not> more_steps_today ?inds b a) ?s"
    by (simp_all add: sorts_def)
  from m have s: "set ?s = set (eligible_individuals app)" by (rule mset_eq_setD)
  from m have l: "length ?s = length (eligible_individuals app)" by (rule mset_eq_length)
  from m have d: "distinct ?s"
    using eligible_individuals_distinct [of app] mset_eq_imp_distinct_iff by blast
  have ge: "(\<lambda>a b. \<not> more_steps_today ?inds b a) = ?ge"
    by (auto simp: more_steps_today_def fun_eq_iff)
  from o have o': "sorted_wrt ?ge ?s" by (simp only: ge)
  then have "sorted_wrt ?ge (take 3 ?s @ drop 3 ?s)" by simp
  then have split: "sorted_wrt ?ge (take 3 ?s)"
    "\<forall>p \<in> set (take 3 ?s). \<forall>q \<in> set (drop 3 ?s). ?ge p q"
    unfolding sorted_wrt_append by blast+
  have rest: "set (eligible_individuals app) - set (take 3 ?s) \<subseteq> set (drop 3 ?s)"
    using s set_append [of "take 3 ?s" "drop 3 ?s"] by (simp only: append_take_drop_id) blast
  have 1: "length (take 3 ?s) = min 3 (length (eligible_individuals app))"
    using l by (simp add: min.commute)
  have 2: "length (take 3 ?s) \<le> 3" by simp
  have 3: "distinct (take 3 ?s)" using d by (rule distinct_take)
  have 4: "set (take 3 ?s) \<subseteq> set (eligible_individuals app)"
    using s set_take_subset [of 3 ?s] by simp
  have 5: "\<forall>q \<in> set (eligible_individuals app) - set (take 3 ?s).
            \<forall>p \<in> set (take 3 ?s). ?ge p q"
    using split(2) rest by blast
  show ?thesis
    unfolding get_top_3_take using 1 2 3 4 split(1) 5 by (intro conjI)
qed

text \<open>
  Claim C3, amended. Whenever \<^verbatim>\<open>std::sort\<close> keeps its contract, \<open>get_top_3\<close> returns
  \<open>min 3 n\<close> of the \<open>n\<close> eligible individuals, each once, in an order in which the
  last-day step count never increases, and no eligible individual that is left out has
  more last-day steps than one that is returned. The order among individuals with equal
  last-day steps is the one \<^verbatim>\<open>std::sort\<close> produces; it is not tied to the store order.
\<close>

theorem get_top_3_ordered:
  assumes "sorts (more_steps_today (individuals_tree app)) (eligible_individuals app)
             (std_sort (more_steps_today (individuals_tree app)) (eligible_individuals app))"
  shows "length (get_top_3 std_sort app) = min 3 (length (eligible_individuals app))
       \<and> length (get_top_3 std_sort app) \<le> 3
       \<and> distinct (get_top_3 std_sort app)
       \<and> set (get_top_3 std_sort app) \<subseteq> set (eligible_individuals app)
       \<and> sorted_wrt (\<lambda>a b. last (weekly_step_count (individuals_tree app ! a))
                            \<ge> last (weekly_step_count (individuals_tree app ! b)))
           (get_top_3 std_sort app)
       \<and> (\<forall>q \<in> set (eligible_individuals app) - set (get_top_3 std_sort app).
            \<forall>p \<in> set (get_top_3 std_sort app).
              last (weekly_step_count (individuals_tree app ! q))
                \<le> last (weekly_step_count (individuals_tree app ! p)))"
  by (rule get_top_3_sorted_prefix [where std_sort = std_sort and app = app, OF assms])

lemma get_top_3_four_walkers: "get_top_3 stable_sort four_walkers = [1, 2, 0]"
proof -
  have e: "eligible_individuals four_walkers = [0, 1, 2, 3]"
    by (simp add: eligible_individuals_def four_walkers_def met_daily_goal_def walker_def
        Individual_ctor_def upt_rec)
  have "get_top_3 stable_sort four_walkers
          = take 3 (stable_sort (more_steps_today (individuals_tree four_walkers)) [0, 1, 2, 3])"
    by (simp add: get_top_3_take e)
  also have "\<dots> = [1, 2, 0]"
    by (simp add: stable_sort_def more_steps_today_def four_walkers_def
        walker_def Individual_ctor_def)
  finally show ?thesis .
qed

theorem get_top_3_ordered_witness:
  "sorts (more_steps_today (individuals_tree four_walkers)) (eligible_individuals four_walkers)
     (stable_sort (more_steps_today (individuals_tree four_walkers))
        (eligible_individuals four_walkers))
   \<and> get_top_3 stable_sort four_walkers = [1, 2, 0]
   \<and> length (get_top_3 stable_sort four_walkers) \<le> 3
   \<and> distinct (get_top_3 stable_sort four_walkers)
   \<and> sorted_wrt (\<lambda>a b. last (weekly_step_count (individuals_tree four_walkers ! a))
                        \<ge> last (weekly_step_count (individuals_tree four_walkers ! b)))
       (get_top_3 stable_sort four_walkers)"
proof -
  note s = stable_sort_sorts [OF more_steps_today_swo,
      of "individuals_tree four_walkers" "eligible_individuals four_walkers"]
  from get_top_3_ordered [where std_sort = stable_sort and app = four_walkers, OF s] s
    get_top_3_four_walkers
  show ?thesis by blast
qed

section \<open>Ranking: what the operations write\<close>

text \<open>
  Claim C7, as stated, fails for \<open>check_group_achievement\<close>: it stores the sum it
  computes in the \<^verbatim>\<open>total_weekly_steps\<close> field of the group it was asked about.
\<close>

theorem check_group_achievement_counterexample:
  "total_weekly_steps (groups_tree two_pairs ! 0) = 0
   \<and> total_weekly_steps (groups_tree (snd (check_group_achievement ''G1'' two_pairs)) ! 0) = 18000"
  by (simp add: check_group_achievement_def search_two_pairs Let_def)
     (simp add: two_pairs_def team_def member_def Group_ctor_def Individual_ctor_def
        total_group_steps_def add_member_steps_def search_tree_def find_insert_pos_def)

text \<open>
  Claim C7, amended. \<open>get_top_3\<close> and \<open>generate_leader_board\<close> assign to no stored
  object (they are functions of the state). \<open>check_group_achievement\<close> leaves every
  individual as it was and changes no field of any group but \<^verbatim>\<open>total_weekly_steps\<close>:
  when the group is found, that field of that one group is set to the sum of the weekly
  steps of its members, and when it is not found the state is returned as it was.
  \<open>check_individual_rewards\<close> leaves every group as it was and changes no field of any
  individual but \<^verbatim>\<open>points\<close>.
\<close>

theorem ranking_frame:
  "individuals_tree (snd (check_group_achievement gid app)) = individuals_tree app
   \<and> map (\<lambda>g. g\<lparr>total_weekly_steps := 0\<rparr>) (groups_tree (snd (check_group_achievement gid app)))
       = map (\<lambda>g. g\<lparr>total_weekly_steps := 0\<rparr>) (groups_tree app)
   \<and> (case search_tree (<) group_id (groups_tree app) gid of
         None \<Rightarrow> snd (check_group_achievement gid app) = app
       | Some g \<Rightarrow>
           groups_tree (snd (check_group_achievement gid app))
             = (groups_tree app)
                 [g := (groups_tree app ! g)
                    \<lparr>total_weekly_steps :=
                       total_group_steps (individuals_tree app) (member_ids (groups_tree app ! g))\<rparr>])
   \<and> groups_tree (snd (check_individual_rewards std_sort individual_id app)) = groups_tree app
   \<and> map (\<lambda>x. x\<lparr>points := 0\<rparr>)
         (individuals_tree (snd (check_individual_rewards std_sort individual_id app)))
       = map (\<lambda>x. x\<lparr>points := 0\<rparr>) (individuals_tree app)"
proof -
  have g: "map (\<lambda>g. g\<lparr>total_weekly_steps := 0\<rparr>) (gs[i := (gs ! i)\<lparr>total_weekly_steps := t\<rparr>])
             = map (\<lambda>g. g\<lparr>total_weekly_steps := 0\<rparr>) gs" for gs :: "Group list" and i t
    by (rule map_key_update) simp
  have p: "map (\<lambda>x. x\<lparr>points := 0\<rparr>) (xs[i := (xs ! i)\<lparr>points := t\<rparr>])
             = map (\<lambda>x. x\<lparr>points := 0\<rparr>) xs" for xs :: "Individual list" and i t
    by (rule map_key_update) simp
  show ?thesis
    by (simp add: check_group_achievement_def check_individual_rewards_def Let_def g p
        split: option.split)
qed

theorem ranking_frame_witness:
  "individuals_tree (snd (check_group_achievement ''G1'' two_pairs)) = individuals_tree two_pairs
   \<and> groups_tree (snd (check_group_achievement ''G1'' two_pairs))
       = [(team ''G1'' [1, 2])\<lparr>total_weekly_steps := 18000\<rparr>, team ''G2'' [3, 4]]"
proof -
  note r = ranking_frame [of "''G1''" two_pairs]
  from r have "groups_tree (snd (check_group_achievement ''G1'' two_pairs))
      = (groups_tree two_pairs)
          [0 := (groups_tree two_pairs ! 0)
             \<lparr>total_weekly_steps :=
                total_group_steps (individuals_tree two_pairs)
                  (member_ids (groups_tree two_pairs ! 0))\<rparr>]"
    by (simp add: search_two_pairs)
  also have "\<dots> = [(team ''G1'' [1, 2])\<lparr>total_weekly_steps := 18000\<rparr>, team ''G2'' [3, 4]]"
    by (simp add: two_pairs_def team_def member_def Group_ctor_def Individual_ctor_def
        total_group_steps_def add_member_steps_def search_tree_def find_insert_pos_def)
  finally show ?thesis using r by blast
qed

section \<open>Rewards\<close>

lemma find_rank_absent:
  assumes "\<forall>p \<in> set tops. id_ind (inds ! p) \<noteq> individual_id"
  shows "find_rank inds individual_id tops k = -1"
  using assms by (induction tops arbitrary: k) simp_all

lemma find_rank_at:
  assumes "r < length tops" "id_ind (inds ! (tops ! r)) = individual_id"
    and "\<forall>q < r. id_ind (inds ! (tops ! q)) \<noteq> individual_id"
  shows "find_rank inds individual_id tops k = k + int r"
  using assms
proof (induction tops arbitrary: k r)
  case Nil
  then show ?case by simp
next
  case (Cons p ps)
  show ?case
  proof (cases r)
    case 0
    with Cons.prems show ?thesis by simp
  next
    case (Suc r')
    from Cons.prems(3) Suc have "id_ind (inds ! p) \<noteq> individual_id" by auto
    moreover have "find_rank inds individual_id ps (k + 1) = k + 1 + int r'"
    proof (rule Cons.IH)
      show "r' < length ps" using Cons.prems(1) Suc by simp
      show "id_ind (inds ! (ps ! r')) = individual_id" using Cons.prems(2) Suc by simp
      show "\<forall>q<r'. id_ind (inds ! (ps ! q)) \<noteq> individual_id"
        using Cons.prems(3) Suc by auto
    qed
    ultimately show ?thesis using Suc by simp
  qed
qed

lemma rewards_map_rank: "r < 3 \<Longrightarrow> rewards_map (int r) = [100, 75, 50] ! r"
proof -
  assume "r < 3"
  then consider "r = 0" | "r = 1" | "r = 2" by linarith
  then show ?thesis by cases (simp_all add: rewards_map_def)
qed

lemma get_top_3_props:
  assumes "sorts (more_steps_today (individuals_tree app)) (eligible_individuals app)
             (std_sort (more_steps_today (individuals_tree app)) (eligible_individuals app))"
  shows "distinct (get_top_3 std_sort app)"
    and "length (get_top_3 std_sort app) \<le> 3"
    and "\<forall>p \<in> set (get_top_3 std_sort app). p < length (individuals_tree app)"
proof -
  note o = get_top_3_sorted_prefix [where std_sort = std_sort and app = app, OF assms]
  from o show "distinct (get_top_3 std_sort app)" by blast
  from o show "length (get_top_3 std_sort app) \<le> 3" by blast
  from o have "set (get_top_3 std_sort app) \<subseteq> set (eligible_individuals app)" by blast
  then show "\<forall>p \<in> set (get_top_3 std_sort app). p < length (individuals_tree app)"
    by (auto simp: eligible_individuals_def)
qed

lemma check_individual_rewards_ranked:
  assumes srt: "sorted_tree (<) id_ind (individuals_tree app)"
    and std: "sorts (more_steps_today (individuals_tree app)) (eligible_individuals app)
             (std_sort (more_steps_today (individuals_tree app)) (eligible_individuals app))"
    and found: "search_tree (<) id_ind (individuals_tree app) individual_id = Some i"
    and r: "r < length (get_top_3 std_sort app)" "get_top_3 std_sort app ! r = i"
  shows "check_individual_rewards std_sort individual_id app
           = (Inr (Some ([100, 75, 50] ! r)),
              app\<lparr>individuals_tree :=
                    (individuals_tree app)
                      [i := (individuals_tree app ! i)
                         \<lparr>points := points (individuals_tree app ! i) + [100, 75, 50] ! r\<rparr>]\<rparr>)"
proof -
  let ?inds = "individuals_tree app"
  let ?tops = "get_top_3 std_sort app"
  note t = get_top_3_props [where std_sort = std_sort and app = app, OF std]
  from search_tree_SomeD [OF found] have i: "i < length ?inds" "id_ind (?inds ! i) = individual_id"
    by simp_all
  have before: "\<forall>q<r. id_ind (?inds ! (?tops ! q)) \<noteq> individual_id"
  proof (intro allI impI)
    fix q assume q: "q < r"
    with r(1) have ql: "q < length ?tops" by simp
    have ne: "?tops ! q \<noteq> i"
      using nth_eq_iff_index_eq [OF t(1) ql r(1)] r(2) q by simp
    have lt: "?tops ! q < length ?inds" using t(3) ql by simp
    show "id_ind (?inds ! (?tops ! q)) \<noteq> individual_id"
    proof
      assume "id_ind (?inds ! (?tops ! q)) = individual_id"
      with sorted_tree_index_unique [OF srt lt i(1)] i(2) ne show False by simp
    qed
  qed
  have "find_rank ?inds individual_id ?tops 0 = 0 + int r"
    using r i(2) before by (intro find_rank_at) simp_all
  moreover have "r < 3" using r(1) t(2) by simp
  ultimately show ?thesis
    using found by (simp add: check_individual_rewards_def Let_def rewards_map_rank)
qed

lemma check_individual_rewards_unranked:
  assumes srt: "sorted_tree (<) id_ind (individuals_tree app)"
    and std: "sorts (more_steps_today (individuals_tree app)) (eligible_individuals app)
             (std_sort (more_steps_today (individuals_tree app)) (eligible_individuals app))"
    and found: "search_tree (<) id_ind (individuals_tree app) individual_id = Some i"
    and out: "i \<notin> set (get_top_3 std_sort app)"
  shows "check_individual_rewards std_sort individual_id app = (Inr None, app)"
proof -
  let ?inds = "individuals_tree app"
  note t = get_top_3_props [where std_sort = std_sort and app = app, OF std]
  from search_tree_SomeD [OF found] have i: "i < length ?inds" "id_ind (?inds ! i) = individual_id"
    by simp_all
  have "\<forall>p \<in> set (get_top_3 std_sort app). id_ind (?inds ! p) \<noteq> individual_id"
  proof (intro ballI notI)
    fix p assume p: "p \<in> set (get_top_3 std_sort app)"
      and eq: "id_ind (?inds ! p) = individual_id"
    from t(3) p have "p < length ?inds" by blast
    from sorted_tree_index_unique [OF srt this i(1)] eq i(2) have "p = i" by simp
    with p out show False by simp
  qed
  then have "find_rank ?inds individual_id (get_top_3 std_sort app) 0 = -1"
    by (rule find_rank_absent)
  then show ?thesis using found by (simp add: check_individual_rewards_def Let_def)
qed

lemma points_update_ranking:
  assumes "individuals_tree app' = (individuals_tree app)[i := (individuals_tree app ! i)\<lparr>points := v\<rparr>]"
  shows "eligible_individuals app' = eligible_individuals app"
    and "more_steps_today (individuals_tree app') = more_steps_today (individuals_tree app)"
    and "get_top_3 std_sort app' = get_top_3 std_sort app"
proof -
  let ?inds = "individuals_tree app"
  have same: "weekly_step_count (individuals_tree app' ! p) = weekly_step_count (?inds ! p)
            \<and> daily_step_goal (individuals_tree app' ! p) = daily_step_goal (?inds ! p)" for p
  proof (cases "i < length ?inds")
    case True
    then show ?thesis unfolding assms by (cases "p = i") simp_all
  next
    case False
    then have "length (individuals_tree app) \<le> i" by simp
    then have "individuals_tree app' = individuals_tree app"
      unfolding assms by (rule list_update_beyond)
    then show ?thesis by (simp only:)
  qed
  have len: "length (individuals_tree app') = length ?inds" unfolding assms by simp
  show e: "eligible_individuals app' = eligible_individuals app"
    unfolding eligible_individuals_def met_daily_goal_def len
    by (rule filter_cong) (simp_all add: same)
  show m: "more_steps_today (individuals_tree app') = more_steps_today ?inds"
    unfolding fun_eq_iff more_steps_today_def by (simp add: same)
  show "get_top_3 std_sort app' = get_top_3 std_sort app"
    unfolding get_top_3_take e m ..
qed

lemma check_individual_rewards_twice:
  assumes "sorted_tree (<) id_ind (individuals_tree app)"
    and "sorts (more_steps_today (individuals_tree app)) (eligible_individuals app)
           (std_sort (more_steps_today (individuals_tree app)) (eligible_individuals app))"
    and found: "search_tree (<) id_ind (individuals_tree app) individual_id = Some i"
    and top: "get_top_3 std_sort app \<noteq> [] \<and> get_top_3 std_sort app ! 0 = i"
  shows "fst (check_individual_rewards std_sort individual_id
                      (snd (check_individual_rewards std_sort individual_id app)))
                 = Inr (Some 100)
               \<and> points (individuals_tree
                     (snd (check_individual_rewards std_sort individual_id
                        (snd (check_individual_rewards std_sort individual_id app)))) ! i)
                   = points (individuals_tree app ! i) + 200"
proof -
  let ?inds = "individuals_tree app"
  define app1 where "app1 =
    app\<lparr>individuals_tree := ?inds[i := (?inds ! i)\<lparr>points := points (?inds ! i) + 100\<rparr>]\<rparr>"
  from top have r0: "0 < length (get_top_3 std_sort app)" "get_top_3 std_sort app ! 0 = i"
    by simp_all
  have c1: "check_individual_rewards std_sort individual_id app = (Inr (Some 100), app1)"
    using check_individual_rewards_ranked [where std_sort = std_sort and app = app, OF assms(1,2) found r0]
    by (simp add: app1_def)
  have upd: "individuals_tree app1 = ?inds[i := (?inds ! i)\<lparr>points := points (?inds ! i) + 100\<rparr>]"
    by (simp add: app1_def)
  note same = points_update_ranking [OF upd]
  from search_tree_SomeD [OF found] have i: "i < length ?inds" "id_ind (?inds ! i) = individual_id"
    by simp_all
  have srt1: "sorted_tree (<) id_ind (individuals_tree app1)"
    unfolding upd by (rule sorted_tree_update [OF assms(1)]) simp
  have std1: "sorts (more_steps_today (individuals_tree app1)) (eligible_individuals app1)
           (std_sort (more_steps_today (individuals_tree app1)) (eligible_individuals app1))"
    using assms(2) by (simp only: same)
  have found1: "search_tree (<) id_ind (individuals_tree app1) individual_id = Some i"
    using i by (intro search_tree_SomeI [OF srt1]) (simp_all add: upd)
  have r1: "0 < length (get_top_3 std_sort app1)" "get_top_3 std_sort app1 ! 0 = i"
    using r0 by (simp_all only: same)
  have p1: "points (individuals_tree app1 ! i) = points (?inds ! i) + 100"
    using i(1) by (simp add: upd)
  have len1: "i < length (individuals_tree app1)" using i(1) by (simp add: upd)
  have c2: "check_individual_rewards std_sort individual_id app1
          = (Inr (Some 100),
             app1\<lparr>individuals_tree :=
                   (individuals_tree app1)
                     [i := (individuals_tree app1 ! i)
                        \<lparr>points := points (individuals_tree app1 ! i) + 100\<rparr>]\<rparr>)"
    using check_individual_rewards_ranked [where std_sort = std_sort and app = app1,
        OF srt1 std1 found1 r1] by simp
  show "fst (check_individual_rewards std_sort individual_id
                      (snd (check_individual_rewards std_sort individual_id app)))
                 = Inr (Some 100)
               \<and> points (individuals_tree
                     (snd (check_individual_rewards std_sort individual_id
                        (snd (check_individual_rewards std_sort individual_id app)))) ! i)
                   = points (individuals_tree app ! i) + 200"
    unfolding c1 snd_conv c2 fst_conv using len1 p1 by simp
qed

text \<open>
  Claim C8 (rewards are added up). In a state whose individuals are sorted by id, and
  with a \<^verbatim>\<open>std::sort\<close> that keeps its contract: when the individual is not found
  \<open>check_individual_rewards\<close> changes nothing; when it is found at position \<open>r\<close> of
  \<open>get_top_3\<close>, exactly \<open>[100, 75, 50] ! r\<close> is added to its \<^verbatim>\<open>points\<close> and nothing else
  changes; when it is found but is not among the top three, nothing changes; and two
  calls in a row for the individual at position 0 add 100 twice, 200 in all. (The
  addition is that of a 32-bit \<^verbatim>\<open>int\<close>.)
\<close>

theorem check_individual_rewards_accumulates:
  assumes "sorted_tree (<) id_ind (individuals_tree app)"
    and "sorts (more_steps_today (individuals_tree app)) (eligible_individuals app)
           (std_sort (more_steps_today (individuals_tree app)) (eligible_individuals app))"
  shows "(search_tree (<) id_ind (individuals_tree app) individual_id = None \<longrightarrow>
            check_individual_rewards std_sort individual_id app = (Inl NotFound, app))
       \<and> (\<forall>i. search_tree (<) id_ind (individuals_tree app) individual_id = Some i \<longrightarrow>
            (\<forall>r < length (get_top_3 std_sort app). get_top_3 std_sort app ! r = i \<longrightarrow>
               check_individual_rewards std_sort individual_id app
                 = (Inr (Some ([100, 75, 50] ! r)),
                    app\<lparr>individuals_tree :=
                          (individuals_tree app)
                            [i := (individuals_tree app ! i)
                               \<lparr>points := points (individuals_tree app ! i) + [100, 75, 50] ! r\<rparr>]\<rparr>))
          \<and> (i \<notin> set (get_top_3 std_sort app) \<longrightarrow>
               check_individual_rewards std_sort individual_id app = (Inr None, app))
          \<and> (get_top_3 std_sort app \<noteq> [] \<and> get_top_3 std_sort app ! 0 = i \<longrightarrow>
               fst (check_individual_rewards std_sort individual_id
                      (snd (check_individual_rewards std_sort individual_id app)))
                 = Inr (Some 100)
               \<and> points (individuals_tree
                     (snd (check_individual_rewards std_sort individual_id
                        (snd (check_individual_rewards std_sort individual_id app)))) ! i)
                   = points (individuals_tree app ! i) + 200))"
proof (intro conjI allI impI)
  assume "search_tree (<) id_ind (individuals_tree app) individual_id = None"
  then show "check_individual_rewards std_sort individual_id app = (Inl NotFound, app)"
    by (simp add: check_individual_rewards_def)
next
  fix i r
  assume "search_tree (<) id_ind (individuals_tree app) individual_id = Some i"
    and "r < length (get_top_3 std_sort app)" and "get_top_3 std_sort app ! r = i"
  then show "check_individual_rewards std_sort individual_id app
                 = (Inr (Some ([100, 75, 50] ! r)),
                    app\<lparr>individuals_tree :=
                          (individuals_tree app)
                            [i := (individuals_tree app ! i)
                               \<lparr>points := points (individuals_tree app ! i) + [100, 75, 50] ! r\<rparr>]\<rparr>)"
    by (rule check_individual_rewards_ranked [where std_sort = std_sort and app = app, OF assms])
next
  fix i
  assume "search_tree (<) id_ind (individuals_tree app) individual_id = Some i"
    and "i \<notin> set (get_top_3 std_sort app)"
  then show "check_individual_rewards std_sort individual_id app = (Inr None, app)"
    by (rule check_individual_rewards_unranked [where std_sort = std_sort and app = app, OF assms])
next
  fix i
  assume "search_tree (<) id_ind (individuals_tree app) individual_id = Some i"
    and "get_top_3 std_sort app \<noteq> [] \<and> get_top_3 std_sort app ! 0 = i"
  from check_individual_rewards_twice [where std_sort = std_sort and app = app, OF assms this]
  show "fst (check_individual_rewards std_sort individual_id
               (snd (check_individual_rewards std_sort individual_id app)))
          = Inr (Some 100)" by blast
next
  fix i
  assume "search_tree (<) id_ind (individuals_tree app) individual_id = Some i"
    and "get_top_3 std_sort app \<noteq> [] \<and> get_top_3 std_sort app ! 0 = i"
  from check_individual_rewards_twice [where std_sort = std_sort and app = app, OF assms this]
  show "points (individuals_tree
                     (snd (check_individual_rewards std_sort individual_id
                        (snd (check_individual_rewards std_sort individual_id app)))) ! i)
                   = points (individuals_tree app ! i) + 200" by blast
qed

lemma search_four_walkers:
  "search_tree (<) id_ind (individuals_tree four_walkers) 2 = Some 1"
  "search_tree (<) id_ind (individuals_tree four_walkers) 4 = Some 3"
  "search_tree (<) id_ind (individuals_tree four_walkers) 9 = None"
  by (simp_all add: four_walkers_def walker_def Individual_ctor_def search_tree_def
      find_insert_pos_def)

theorem check_individual_rewards_accumulates_witness:
  "sorted_tree (<) id_ind (individuals_tree four_walkers)
   \<and> sorts (more_steps_today (individuals_tree four_walkers)) (eligible_individuals four_walkers)
       (stable_sort (more_steps_today (individuals_tree four_walkers))
          (eligible_individuals four_walkers))
   \<and> fst (check_individual_rewards stable_sort 2 four_walkers) = Inr (Some 100)
   \<and> points (individuals_tree
         (snd (check_individual_rewards stable_sort 2
            (snd (check_individual_rewards stable_sort 2 four_walkers)))) ! 1) = 200
   \<and> check_individual_rewards stable_sort 4 four_walkers = (Inr None, four_walkers)
   \<and> check_individual_rewards stable_sort 9 four_walkers = (Inl NotFound, four_walkers)"
proof -
  have srt: "sorted_tree (<) id_ind (individuals_tree four_walkers)"
    by (simp add: sorted_tree_def four_walkers_def walker_def Individual_ctor_def)
  note std = stable_sort_sorts [OF more_steps_today_swo,
      of "individuals_tree four_walkers" "eligible_individuals four_walkers"]
  have p0: "points (individuals_tree four_walkers ! 1) = 0"
    by (simp add: four_walkers_def walker_def Individual_ctor_def)
  note t = get_top_3_four_walkers
  note a = check_individual_rewards_accumulates
      [where std_sort = stable_sort and app = four_walkers, OF srt std]
  from a [of 2] search_four_walkers(1)
  have "0 < length (get_top_3 stable_sort four_walkers) \<longrightarrow>
        get_top_3 stable_sort four_walkers ! 0 = 1 \<longrightarrow>
        fst (check_individual_rewards stable_sort 2 four_walkers) = Inr (Some ([100, 75, 50] ! 0))"
    by (metis fst_conv)
  then have 1: "fst (check_individual_rewards stable_sort 2 four_walkers) = Inr (Some 100)"
    by (simp add: t)
  from a [of 2] search_four_walkers(1) t p0
  have 2: "points (individuals_tree
         (snd (check_individual_rewards stable_sort 2
            (snd (check_individual_rewards stable_sort 2 four_walkers)))) ! 1) = 200"
    by simp
  from a [of 4] search_four_walkers(2) t
  have 3: "check_individual_rewards stable_sort 4 four_walkers = (Inr None, four_walkers)"
    by simp
  from a [of 9] search_four_walkers(3)
  have 4: "check_individual_rewards stable_sort 9 four_walkers = (Inl NotFound, four_walkers)"
    by simp
  from srt std 1 2 3 4 show ?thesis by blast
qed

section \<open>The membership invariants\<close>

lemma membership_symmetricI:
  assumes "\<And>g m. g \<in> set (groups_tree app) \<Longrightarrow> m \<in> set (member_ids g) \<Longrightarrow>
             \<exists>ind \<in> set (individuals_tree app). id_ind ind = m \<and> current_group_id ind = group_id g"
    and "\<And>ind. ind \<in> set (individuals_tree app) \<Longrightarrow> current_group_id ind \<noteq> [] \<Longrightarrow>
             \<exists>g \<in> set (groups_tree app). group_id g = current_group_id ind
                 \<and> id_ind ind \<in> set (member_ids g)"
  shows "membership_symmetric app"
  using assms unfolding membership_symmetric_def by blast

lemma member_has_individual:
  assumes "membership_symmetric app" "g \<in> set (groups_tree app)" "m \<in> set (member_ids g)"
  obtains ind where "ind \<in> set (individuals_tree app)" "id_ind ind = m"
    "current_group_id ind = group_id g"
  using assms unfolding membership_symmetric_def by blast

lemma individual_has_group:
  assumes "membership_symmetric app" "ind \<in> set (individuals_tree app)"
    "current_group_id ind \<noteq> []"
  obtains g where "g \<in> set (groups_tree app)" "group_id g = current_group_id ind"
    "id_ind ind \<in> set (member_ids g)"
  using assms unfolding membership_symmetric_def by blast

lemma consistentD:
  assumes "consistent app"
  shows "sorted_tree (<) id_ind (individuals_tree app)"
    and "sorted_tree (<) group_id (groups_tree app)"
    and "membership_symmetric app"
    and "group_ids_nonempty app"
  using assms by (simp_all add: consistent_def well_formed_def)

lemma consistentI:
  assumes "sorted_tree (<) id_ind (individuals_tree app)"
    and "sorted_tree (<) group_id (groups_tree app)"
    and "membership_symmetric app"
    and "group_ids_nonempty app"
  shows "consistent app"
  using assms by (simp add: consistent_def well_formed_def)

lemma add_person_consistent:
  assumes "consistent app"
  shows "consistent (snd (add_person i n a goal steps app))"
proof (cases "search_tree (<) id_ind (individuals_tree app) i")
  case (Some k)
  with assms show ?thesis by (simp add: add_person_def)
next
  case None
  let ?new = "Individual_ctor i n a goal steps"
  let ?inds = "insert_tree (<) id_ind (individuals_tree app) ?new"
  note c = consistentD [OF assms]
  have key: "id_ind ?new = i" by (simp add: Individual_ctor_def)
  have s: "set ?inds = insert ?new (set (individuals_tree app))"
    and srt: "sorted_tree (<) id_ind ?inds"
    using insert_tree_new [OF c(1), of ?new] None key by simp_all
  have r: "snd (add_person i n a goal steps app) = app\<lparr>individuals_tree := ?inds\<rparr>"
    using None by (simp add: add_person_def)
  show ?thesis
    unfolding r
  proof (rule consistentI)
    show "sorted_tree (<) id_ind (individuals_tree (app\<lparr>individuals_tree := ?inds\<rparr>))"
      using srt by simp
    show "sorted_tree (<) group_id (groups_tree (app\<lparr>individuals_tree := ?inds\<rparr>))"
      using c(2) by simp
    show "group_ids_nonempty (app\<lparr>individuals_tree := ?inds\<rparr>)"
      using c(4) by (simp add: group_ids_nonempty_def)
    show "membership_symmetric (app\<lparr>individuals_tree := ?inds\<rparr>)"
    proof (rule membership_symmetricI)
      fix g m
      assume "g \<in> set (groups_tree (app\<lparr>individuals_tree := ?inds\<rparr>))" "m \<in> set (member_ids g)"
      then obtain ind where "ind \<in> set (individuals_tree app)" "id_ind ind = m"
        "current_group_id ind = group_id g"
        using member_has_individual [OF c(3)] by auto
      then show "\<exists>ind \<in> set (individuals_tree (app\<lparr>individuals_tree := ?inds\<rparr>)).
                   id_ind ind = m \<and> current_group_id ind = group_id g"
        by (auto simp: s)
    next
      fix ind
      assume "ind \<in> set (individuals_tree (app\<lparr>individuals_tree := ?inds\<rparr>))"
        and ne: "current_group_id ind \<noteq> []"
      moreover have "current_group_id ?new = []" by (simp add: Individual_ctor_def)
      ultimately have "ind \<in> set (individuals_tree app)"
        by (auto simp: s)
      from individual_has_group [OF c(3) this ne]
      show "\<exists>g \<in> set (groups_tree (app\<lparr>individuals_tree := ?inds\<rparr>)).
              group_id g = current_group_id ind \<and> id_ind ind \<in> set (member_ids g)"
        by auto
    qed
  qed
qed

lemma sorted_tree_map:
  assumes "\<And>x. kx (f x) = kx x" and "sorted_tree cmp kx data"
  shows "sorted_tree cmp kx (map f data)"
  using assms by (simp add: sorted_tree_def sorted_wrt_map)

lemma delete_group_effect:
  assumes "sorted_tree (<) id_ind (individuals_tree app)"
    and "search_tree (<) group_id (groups_tree app) gid = Some g"
  shows "delete_group gid app =
           (None,
            app\<lparr>individuals_tree :=
                  map (\<lambda>ind. if id_ind ind \<in> set (member_ids (groups_tree app ! g))
                             then ind\<lparr>current_group_id := []\<rparr> else ind)
                    (individuals_tree app),
                groups_tree := filter (\<lambda>x. group_id x \<noteq> gid) (groups_tree app)\<rparr>)"
  using assms by (simp add: delete_group_found set_members_group_map)

lemma delete_group_consistent:
  assumes "consistent app"
  shows "consistent (snd (delete_group gid app))"
proof (cases "search_tree (<) group_id (groups_tree app) gid")
  case None
  with assms show ?thesis by (simp add: delete_group_not_found)
next
  case (Some k)
  note c = consistentD [OF assms]
  let ?inds = "individuals_tree app" and ?gs = "groups_tree app"
  define g0 where "g0 = ?gs ! k"
  define clear :: "Individual \<Rightarrow> Individual" where "clear = (\<lambda>ind. if id_ind ind \<in> set (member_ids g0)
                                      then ind\<lparr>current_group_id := []\<rparr> else ind)"
  define app' where "app' = app\<lparr>individuals_tree := map clear ?inds,
                                 groups_tree := filter (\<lambda>x. group_id x \<noteq> gid) ?gs\<rparr>"
  have r: "snd (delete_group gid app) = app'"
    using delete_group_effect [OF c(1) Some] by (simp add: app'_def clear_def g0_def)
  from search_tree_SomeD [OF Some] have g0: "g0 \<in> set ?gs" "group_id g0 = gid"
    by (simp_all add: g0_def)
  have id_clear: "id_ind (clear x) = id_ind x" for x by (simp add: clear_def)
  show ?thesis
    unfolding r
  proof (rule consistentI)
    show "sorted_tree (<) id_ind (individuals_tree app')"
      using sorted_tree_map [of id_ind clear, OF id_clear c(1)] by (simp add: app'_def)
    show "sorted_tree (<) group_id (groups_tree app')"
      using c(2) by (simp add: app'_def sorted_tree_filter)
    show "group_ids_nonempty app'"
      using c(4) by (simp add: app'_def group_ids_nonempty_def)
    show "membership_symmetric app'"
    proof (rule membership_symmetricI)
      fix g m
      assume "g \<in> set (groups_tree app')" and m: "m \<in> set (member_ids g)"
      then have g: "g \<in> set ?gs" "group_id g \<noteq> gid" by (simp_all add: app'_def)
      from member_has_individual [OF c(3) g(1) m]
      obtain ind where ind: "ind \<in> set ?inds" "id_ind ind = m" "current_group_id ind = group_id g"
        by blast
      have "m \<notin> set (member_ids g0)"
      proof
        assume "m \<in> set (member_ids g0)"
        from member_has_individual [OF c(3) g0(1) this]
        obtain ind' where "ind' \<in> set ?inds" "id_ind ind' = m" "current_group_id ind' = gid"
          using g0(2) by auto
        with sorted_tree_elem_unique [OF c(1) ind(1), of ind'] ind g(2) show False by auto
      qed
      with ind have "clear ind = ind" by (simp add: clear_def)
      with ind show "\<exists>ind \<in> set (individuals_tree app').
                       id_ind ind = m \<and> current_group_id ind = group_id g"
        by (auto simp: app'_def intro!: bexI [of _ ind] image_eqI [of _ clear ind])
    next
      fix x
      assume "x \<in> set (individuals_tree app')" and ne: "current_group_id x \<noteq> []"
      then obtain ind where ind: "ind \<in> set ?inds" "x = clear ind" by (auto simp: app'_def)
      with ne have out: "id_ind ind \<notin> set (member_ids g0)" and x: "x = ind"
        by (auto simp: clear_def split: if_splits)
      from individual_has_group [OF c(3) ind(1)] ne x
      obtain g where g: "g \<in> set ?gs" "group_id g = current_group_id ind"
        "id_ind ind \<in> set (member_ids g)" by auto
      have "group_id g \<noteq> gid"
      proof
        assume "group_id g = gid"
        with sorted_tree_elem_unique [OF c(2) g(1) g0(1)] g0(2) have "g = g0" by simp
        with g(3) out show False by simp
      qed
      with g x show "\<exists>g \<in> set (groups_tree app').
                       group_id g = current_group_id x \<and> id_ind x \<in> set (member_ids g)"
        by (auto simp: app'_def)
    qed
  qed
qed

lemma delete_individual_effect:
  assumes "consistent app"
    and "search_tree (<) id_ind (individuals_tree app) i = Some p"
  shows "snd (delete_individual i app) =
           app\<lparr>individuals_tree := filter (\<lambda>x. id_ind x \<noteq> i) (individuals_tree app),
               groups_tree :=
                 map (\<lambda>gr. if group_id gr = current_group_id (individuals_tree app ! p)
                            then gr\<lparr>member_ids := removeAll i (member_ids gr)\<rparr> else gr)
                   (groups_tree app)\<rparr>"
proof -
  note c = consistentD [OF assms(1)]
  let ?inds = "individuals_tree app" and ?gs = "groups_tree app"
  let ?cg = "current_group_id (?inds ! p)"
  let ?h = "\<lambda>gr. if group_id gr = ?cg
                  then gr\<lparr>member_ids := removeAll i (member_ids gr)\<rparr> else gr"
  from search_tree_SomeD [OF assms(2)] have p: "p < length ?inds" "id_ind (?inds ! p) = i"
    by simp_all
  then have mem: "?inds ! p \<in> set ?inds" by simp
  have gs: "(if ?cg \<noteq> [] then
               (case search_tree (<) group_id ?gs ?cg of
                  None \<Rightarrow> ?gs
                | Some g \<Rightarrow> ?gs[g := (?gs ! g)\<lparr>member_ids := removeAll i (member_ids (?gs ! g))\<rparr>])
             else ?gs) = map ?h ?gs"
  proof (cases "?cg = []")
    case True
    have "map ?h ?gs = ?gs"
      using c(4) True by (intro map_idI) (auto simp: group_ids_nonempty_def)
    with True show ?thesis by simp
  next
    case False
    from individual_has_group [OF c(3) mem False]
    obtain g where g: "g \<in> set ?gs" "group_id g = ?cg" by blast
    from search_tree_elem [OF c(2) g(1)] g(2)
    obtain k where k: "search_tree (<) group_id ?gs ?cg = Some k" by auto
    from search_tree_SomeD [OF k] have kl: "k < length ?gs" "group_id (?gs ! k) = ?cg"
      by simp_all
    from update_as_map [OF c(2) kl(1),
        of "\<lambda>gr. gr\<lparr>member_ids := removeAll i (member_ids gr)\<rparr>"] kl(2)
    have "?gs[k := (?gs ! k)\<lparr>member_ids := removeAll i (member_ids (?gs ! k))\<rparr>] = map ?h ?gs"
      by simp
    with False k show ?thesis by simp
  qed
  show ?thesis
    using assms(2) gs by (simp add: delete_individual_def Let_def remove_tree_eq)
qed

lemma delete_individual_consistent:
  assumes "consistent app"
  shows "consistent (snd (delete_individual i app))"
proof (cases "search_tree (<) id_ind (individuals_tree app) i")
  case None
  with assms show ?thesis by (simp add: delete_individual_def)
next
  case (Some p)
  note c = consistentD [OF assms]
  let ?inds = "individuals_tree app" and ?gs = "groups_tree app"
  define ind0 where "ind0 = ?inds ! p"
  define h :: "Group \<Rightarrow> Group" where
    "h = (\<lambda>gr. if group_id gr = current_group_id ind0
               then gr\<lparr>member_ids := removeAll i (member_ids gr)\<rparr> else gr)"
  define app' where "app' = app\<lparr>individuals_tree := filter (\<lambda>x. id_ind x \<noteq> i) ?inds,
                                 groups_tree := map h ?gs\<rparr>"
  have r: "snd (delete_individual i app) = app'"
    using delete_individual_effect [OF assms Some] by (simp add: app'_def h_def ind0_def)
  from search_tree_SomeD [OF Some] have ind0: "ind0 \<in> set ?inds" "id_ind ind0 = i"
    by (simp_all add: ind0_def)
  have id_h: "group_id (h x) = group_id x" for x by (simp add: h_def)
  show ?thesis
    unfolding r
  proof (rule consistentI)
    show "sorted_tree (<) id_ind (individuals_tree app')"
      using c(1) by (simp add: app'_def sorted_tree_filter)
    show "sorted_tree (<) group_id (groups_tree app')"
      using sorted_tree_map [of group_id h, OF id_h c(2)] by (simp add: app'_def)
    show "group_ids_nonempty app'"
      using c(4) by (auto simp: app'_def group_ids_nonempty_def id_h)
    show "membership_symmetric app'"
    proof (rule membership_symmetricI)
      fix g' m
      assume "g' \<in> set (groups_tree app')" and m': "m \<in> set (member_ids g')"
      then obtain g where g: "g \<in> set ?gs" "g' = h g" by (auto simp: app'_def)
      from m' g(2) have m: "m \<in> set (member_ids g)" by (auto simp: h_def split: if_splits)
      from member_has_individual [OF c(3) g(1) m]
      obtain ind where ind: "ind \<in> set ?inds" "id_ind ind = m" "current_group_id ind = group_id g"
        by blast
      have "m \<noteq> i"
      proof
        assume "m = i"
        with sorted_tree_elem_unique [OF c(1) ind(1) ind0(1)] ind(2) ind0(2) have "ind = ind0"
          by simp
        with ind(3) have "group_id g = current_group_id ind0" by simp
        with m' g(2) \<open>m = i\<close> show False by (simp add: h_def)
      qed
      with ind show "\<exists>ind \<in> set (individuals_tree app').
                       id_ind ind = m \<and> current_group_id ind = group_id g'"
        by (auto simp: app'_def g(2) id_h)
    next
      fix x
      assume "x \<in> set (individuals_tree app')" and ne: "current_group_id x \<noteq> []"
      then have x: "x \<in> set ?inds" "id_ind x \<noteq> i" by (simp_all add: app'_def)
      from individual_has_group [OF c(3) x(1) ne]
      obtain g where g: "g \<in> set ?gs" "group_id g = current_group_id x"
        "id_ind x \<in> set (member_ids g)" by blast
      have "h g \<in> set (groups_tree app')" using g(1) by (simp add: app'_def)
      moreover have "group_id (h g) = current_group_id x" using g(2) by (simp add: id_h)
      moreover have "id_ind x \<in> set (member_ids (h g))" using g(3) x(2) by (simp add: h_def)
      ultimately show "\<exists>g \<in> set (groups_tree app').
                       group_id g = current_group_id x \<and> id_ind x \<in> set (member_ids g)"
        by blast
    qed
  qed
qed

text \<open>The common end of \<open>create_group\<close> and \<open>merge_groups\<close>: a group with a new,
  non-empty id is inserted, and its members, who are stored and ungrouped, are given
  its id.\<close>

lemma install_group_consistent:
  assumes "consistent app"
    and new: "group_id G \<noteq> []" "search_tree (<) group_id (groups_tree app) (group_id G) = None"
    and members: "set (member_ids G) = set ms"
    and free: "\<forall>m \<in> set ms. \<exists>ind \<in> set (individuals_tree app).
                 id_ind ind = m \<and> current_group_id ind = []"
  shows "consistent
           (app\<lparr>groups_tree := insert_tree (<) group_id (groups_tree app) G,
                individuals_tree := set_members_group (group_id G) ms (individuals_tree app)\<rparr>)"
proof -
  note c = consistentD [OF assms(1)]
  let ?inds = "individuals_tree app" and ?gs = "groups_tree app"
  define join :: "Individual \<Rightarrow> Individual" where
    "join = (\<lambda>ind. if id_ind ind \<in> set ms then ind\<lparr>current_group_id := group_id G\<rparr> else ind)"
  define app' where "app' = app\<lparr>groups_tree := insert_tree (<) group_id ?gs G,
                                 individuals_tree := map join ?inds\<rparr>"
  have r: "app\<lparr>groups_tree := insert_tree (<) group_id ?gs G,
               individuals_tree := set_members_group (group_id G) ms ?inds\<rparr> = app'"
    by (simp add: app'_def join_def set_members_group_map [OF c(1)])
  have gs: "set (groups_tree app') = insert G (set ?gs)"
    and sg: "sorted_tree (<) group_id (groups_tree app')"
    using insert_tree_new [OF c(2) new(2)] by (simp_all add: app'_def)
  have inds: "set (individuals_tree app') = join ` set ?inds" by (simp add: app'_def)
  have id_join: "id_ind (join x) = id_ind x" for x by (simp add: join_def)
  show ?thesis
    unfolding r
  proof (rule consistentI)
    show "sorted_tree (<) id_ind (individuals_tree app')"
      using sorted_tree_map [of id_ind join, OF id_join c(1)] by (simp add: app'_def)
    show "sorted_tree (<) group_id (groups_tree app')" by (rule sg)
    show "group_ids_nonempty app'"
      using c(4) new(1) by (simp add: group_ids_nonempty_def gs)
    show "membership_symmetric app'"
    proof (rule membership_symmetricI)
      fix g m
      assume "g \<in> set (groups_tree app')" and m: "m \<in> set (member_ids g)"
      then consider "g = G" | "g \<in> set ?gs" by (auto simp: gs)
      then show "\<exists>ind \<in> set (individuals_tree app').
                   id_ind ind = m \<and> current_group_id ind = group_id g"
      proof cases
        case 1
        with m members have ms: "m \<in> set ms" by simp
        with free obtain ind where "ind \<in> set ?inds" "id_ind ind = m" by blast
        with ms 1 have "join ind \<in> set (individuals_tree app')" "id_ind (join ind) = m"
          "current_group_id (join ind) = group_id g"
          by (simp_all add: inds join_def)
        then show ?thesis by blast
      next
        case 2
        from member_has_individual [OF c(3) 2 m]
        obtain ind where ind: "ind \<in> set ?inds" "id_ind ind = m"
          "current_group_id ind = group_id g" by blast
        have "m \<notin> set ms"
        proof
          assume "m \<in> set ms"
          with free obtain ind' where "ind' \<in> set ?inds" "id_ind ind' = m"
            "current_group_id ind' = []" by blast
          with sorted_tree_elem_unique [OF c(1) ind(1), of ind'] ind
          have "group_id g = []" by auto
          with c(4) 2 show False by (simp add: group_ids_nonempty_def)
        qed
        with ind have "join ind = ind" by (simp add: join_def)
        with ind show ?thesis by (auto simp: inds intro!: bexI [of _ ind])
      qed
    next
      fix x
      assume "x \<in> set (individuals_tree app')" and ne: "current_group_id x \<noteq> []"
      then obtain ind where ind: "ind \<in> set ?inds" "x = join ind" by (auto simp: inds)
      show "\<exists>g \<in> set (groups_tree app').
              group_id g = current_group_id x \<and> id_ind x \<in> set (member_ids g)"
      proof (cases "id_ind ind \<in> set ms")
        case True
        with ind members have "group_id G = current_group_id x" "id_ind x \<in> set (member_ids G)"
          by (simp_all add: join_def)
        then show ?thesis by (auto simp: gs)
      next
        case False
        with ind have x: "x = ind" by (simp add: join_def)
        from individual_has_group [OF c(3) ind(1)] ne x
        show ?thesis by (auto simp: gs)
      qed
    qed
  qed
qed

lemma create_group_consistent:
  assumes "consistent app" and "gid \<noteq> []"
  shows "consistent (snd (create_group gid gname mids goal app))"
proof -
  let ?actual = "filter (valid_member (individuals_tree app)) mids"
  let ?G = "Group_ctor gid gname ?actual goal"
  show ?thesis
  proof (cases "search_tree (<) group_id (groups_tree app) gid = None
                \<and> \<not> length mids > MAX_MEMBERS \<and> ?actual \<noteq> []")
    case False
    with assms(1) show ?thesis by (auto simp: create_group_def Let_def)
  next
    case True
    have G: "group_id ?G = gid" "set (member_ids ?G) = set ?actual"
      by (simp_all add: Group_ctor_def)
    have free: "\<forall>m \<in> set ?actual. \<exists>ind \<in> set (individuals_tree app).
                  id_ind ind = m \<and> current_group_id ind = []"
    proof
      fix m assume "m \<in> set ?actual"
      then have "valid_member (individuals_tree app) m" by simp
      then obtain k where k: "search_tree (<) id_ind (individuals_tree app) m = Some k"
        "current_group_id (individuals_tree app ! k) = []"
        by (auto simp: valid_member_def split: option.splits)
      from search_tree_SomeD [OF k(1)] k(2)
      show "\<exists>ind \<in> set (individuals_tree app). id_ind ind = m \<and> current_group_id ind = []"
        by (auto intro!: bexI [of _ "individuals_tree app ! k"])
    qed
    from install_group_consistent [OF assms(1), of ?G ?actual] assms(2) True G free
    have "consistent
           (app\<lparr>groups_tree := insert_tree (<) group_id (groups_tree app) ?G,
                individuals_tree := set_members_group gid ?actual (individuals_tree app)\<rparr>)"
      by simp
    with True show ?thesis by (simp add: create_group_def Let_def)
  qed
qed

lemma merge_groups_consistent:
  assumes "consistent app"
  shows "consistent (snd (merge_groups g1 g2 gname goal app))"
proof (cases "search_tree (<) group_id (groups_tree app) g1")
  case None
  with assms show ?thesis by (simp add: merge_groups_def)
next
  case p1: (Some p1)
  show ?thesis
  proof (cases "search_tree (<) group_id (groups_tree app) g2")
    case None
    with assms p1 show ?thesis by (simp add: merge_groups_def)
  next
    case p2: (Some p2)
    note c = consistentD [OF assms]
    let ?inds = "individuals_tree app" and ?gs = "groups_tree app"
    let ?m1 = "member_ids (?gs ! p1)" and ?m2 = "member_ids (?gs ! p2)"
    let ?merged = "merged_member_ids ?m1 ?m2"
    let ?G = "Group_ctor g1 gname ?merged goal"
    show ?thesis
    proof (cases "length ?merged > MAX_MEMBERS")
      case True
      with assms p1 p2 show ?thesis by (simp add: merge_groups_def)
    next
      case small: False
      define clear1 :: "Individual \<Rightarrow> Individual" where
        "clear1 = (\<lambda>ind. if id_ind ind \<in> set ?m1 then ind\<lparr>current_group_id := []\<rparr> else ind)"
      define app1 where "app1 = app\<lparr>individuals_tree := map clear1 ?inds,
                                     groups_tree := filter (\<lambda>x. group_id x \<noteq> g1) ?gs\<rparr>"
      have d1: "delete_group g1 app = (None, app1)"
        using delete_group_effect [OF c(1) p1] by (simp add: app1_def clear1_def)
      have c1: "consistent app1"
        using delete_group_consistent [OF assms, of g1] d1 by simp
      show ?thesis
      proof (cases "search_tree (<) group_id (groups_tree app1) g2")
        case None
        then have "delete_group g2 app1 = (Some NotFound, app1)" by (rule delete_group_not_found)
        with p1 p2 small d1 c1 show ?thesis by (simp add: merge_groups_def Let_def)
      next
        case j: (Some j)
        note c1' = consistentD [OF c1]
        from search_tree_SomeD [OF p1] have g1: "?gs ! p1 \<in> set ?gs" "group_id (?gs ! p1) = g1"
          by simp_all
        from search_tree_SomeD [OF p2] have g2: "?gs ! p2 \<in> set ?gs" "group_id (?gs ! p2) = g2"
          by simp_all
        from search_tree_SomeD [OF j]
        have "groups_tree app1 ! j \<in> set (groups_tree app1)" "group_id (groups_tree app1 ! j) = g2"
          by simp_all
        then have "groups_tree app1 ! j \<in> set ?gs" by (simp add: app1_def)
        with sorted_tree_elem_unique [OF c(2) _ g2(1)] g2(2)
          \<open>group_id (groups_tree app1 ! j) = g2\<close>
        have same: "groups_tree app1 ! j = ?gs ! p2" by simp
        define clear2 :: "Individual \<Rightarrow> Individual" where
          "clear2 = (\<lambda>ind. if id_ind ind \<in> set ?m2 then ind\<lparr>current_group_id := []\<rparr> else ind)"
        define app2 where "app2 = app1\<lparr>individuals_tree := map clear2 (individuals_tree app1),
                                        groups_tree := filter (\<lambda>x. group_id x \<noteq> g2)
                                                         (groups_tree app1)\<rparr>"
        have d2: "delete_group g2 app1 = (None, app2)"
          using delete_group_effect [OF c1'(1) j] by (simp add: app2_def clear2_def same)
        have c2: "consistent app2"
          using delete_group_consistent [OF c1, of g2] d2 by simp
        note c2' = consistentD [OF c2]
        have m: "snd (merge_groups g1 g2 gname goal app) =
                   app2\<lparr>groups_tree := insert_tree (<) group_id (groups_tree app2) ?G,
                        individuals_tree := set_members_group g1 ?merged (individuals_tree app2)\<rparr>"
          using p1 p2 small d1 d2 by (simp add: merge_groups_def Let_def)
        have G: "group_id ?G = g1" "set (member_ids ?G) = set ?merged"
          by (simp_all add: Group_ctor_def)
        have ne: "g1 \<noteq> []" using c(4) g1 by (auto simp: group_ids_nonempty_def)
        have absent: "search_tree (<) group_id (groups_tree app2) g1 = None"
          using c2'(2) by (auto simp: search_tree_None_iff app2_def app1_def)
        have inds2: "individuals_tree app2 = map clear2 (map clear1 ?inds)"
          by (simp add: app2_def app1_def)
        have free: "\<forall>m \<in> set ?merged. \<exists>ind \<in> set (individuals_tree app2).
                      id_ind ind = m \<and> current_group_id ind = []"
        proof
          fix m assume "m \<in> set ?merged"
          then consider "m \<in> set ?m1" | "m \<in> set ?m2" by auto
          then have "\<exists>ind \<in> set ?inds. id_ind ind = m"
          proof cases
            case 1
            from member_has_individual [OF c(3) g1(1) 1] show ?thesis by metis
          next
            case 2
            from member_has_individual [OF c(3) g2(1) 2] show ?thesis by metis
          qed
          then obtain ind where ind: "ind \<in> set ?inds" "id_ind ind = m" by blast
          have "current_group_id (clear2 (clear1 ind)) = []" "id_ind (clear2 (clear1 ind)) = m"
            using \<open>m \<in> set ?merged\<close> ind(2) by (auto simp: clear1_def clear2_def)
          moreover have "clear2 (clear1 ind) \<in> set (individuals_tree app2)"
            using ind(1) by (simp add: inds2)
          ultimately show "\<exists>ind \<in> set (individuals_tree app2).
                             id_ind ind = m \<and> current_group_id ind = []" by blast
        qed
        from install_group_consistent [OF c2, of ?G ?merged] ne absent G free
        show ?thesis by (simp add: m)
      qed
    qed
  qed
qed

lemma apply_operation_consistent:
  assumes "consistent app" and "\<not> creates_unnamed_group op"
  shows "consistent (apply_operation op app)"
  using assms
  by (cases op)
     (simp_all add: add_person_consistent create_group_consistent delete_individual_consistent
        delete_group_consistent merge_groups_consistent)

lemma run_consistent:
  assumes "consistent app" and "\<forall>op \<in> set ops. \<not> creates_unnamed_group op"
  shows "consistent (run ops app)"
  using assms unfolding run_def
  by (induction ops arbitrary: app) (simp_all add: apply_operation_consistent)

text \<open>
  Claim C1 (membership symmetry in every reachable state) is what the code sets out to
  keep, and the code misses it. The comment of \<^verbatim>\<open>create_group\<close> says that an individual
  cannot be added to a new group if they already belong to one, and the function tests
  this with \<^verbatim>\<open>current_group_id.empty()\<close>. It does not reject the empty string as a group
  id. The members of a group with that id hold the empty string as their
  \<^verbatim>\<open>current_group_id\<close>, which is also what an ungrouped individual holds, so the test
  lets them into a second group. The run: from one ungrouped individual with id 1 and
  no group, \<^verbatim>\<open>create_group("", "Team", {1}, 1000)\<close> and then
  \<^verbatim>\<open>create_group("G2", "Team", {1}, 1000)\<close>. Both calls succeed; afterwards both groups
  list individual 1, whose \<^verbatim>\<open>current_group_id\<close> names the second group only.
\<close>

theorem create_group_empty_id_run:
  "fst (create_group [] ''Team'' [1] 1000 lone_walker) = None
   \<and> fst (create_group ''G2'' ''Team'' [1] 1000
           (snd (create_group [] ''Team'' [1] 1000 lone_walker))) = None
   \<and> run [Create_group [] ''Team'' [1] 1000, Create_group ''G2'' ''Team'' [1] 1000] lone_walker
       = \<lparr>individuals_tree = [(walker 1 5000 [9000])\<lparr>current_group_id := ''G2''\<rparr>],
          groups_tree = [Group_ctor [] ''Team'' [1] 1000, Group_ctor ''G2'' ''Team'' [1] 1000]\<rparr>"
  by code_simp

text \<open>The state before the run is sorted and satisfies I1 and I2; the state after it
  does not satisfy I1.\<close>

lemma create_group_empty_id_breaks_symmetry:
  "well_formed lone_walker
   \<and> membership_symmetric lone_walker
   \<and> \<not> membership_symmetric
         (run [Create_group [] ''Team'' [1] 1000, Create_group ''G2'' ''Team'' [1] 1000]
            lone_walker)"
  by code_simp

text \<open>
  The empty group id is the only way the operations lose the invariants. Start from a
  state whose two containers are sorted by key, that satisfies I1 and I2, and that
  holds no group with the empty string as its id. After any sequence of \<open>add_person\<close>,
  \<open>create_group\<close>, \<open>delete_individual\<close>, \<open>delete_group\<close> and \<open>merge_groups\<close> calls,
  failed ones included, in which no \<open>create_group\<close> is given the empty string as the
  group id, the state again satisfies I1 and I2 (and is sorted, with no group of empty
  id).
\<close>

lemma membership_symmetric_preserved:
  assumes "well_formed app" and "membership_symmetric app" and "group_ids_nonempty app"
    and "\<forall>op \<in> set ops. \<not> creates_unnamed_group op"
  shows "membership_symmetric (run ops app)
       \<and> well_formed (run ops app) \<and> group_ids_nonempty (run ops app)"
proof -
  from assms(1-3) have "consistent app" by (simp add: consistent_def)
  from run_consistent [OF this assms(4)] show ?thesis by (simp add: consistent_def)
qed

text \<open>An example: two groups are created and merged, a member is deleted and an
  individual is added.\<close>

lemma membership_symmetric_preserved_example:
  "run [Create_group ''G1'' ''Team'' [1, 2] 1000, Create_group ''G2'' ''Team'' [3, 4, 7] 1000,
        Merge_groups ''G1'' ''G2'' ''Combined'' 500, Delete_individual 1,
        Add_person 9 ''New'' 20 4000 []]
     five_ungrouped
   = \<lparr>individuals_tree = [member 2 ''G1'', member 3 ''G1'', member 4 ''G1'', member 5 [],
                         Individual_ctor 9 ''New'' 20 4000 []],
      groups_tree = [Group_ctor ''G1'' ''Combined'' [2, 3, 4] 500]\<rparr>
   \<and> membership_symmetric
        (run [Create_group ''G1'' ''Team'' [1, 2] 1000, Create_group ''G2'' ''Team'' [3, 4, 7] 1000,
              Merge_groups ''G1'' ''G2'' ''Combined'' 500, Delete_individual 1,
              Add_person 9 ''New'' 20 4000 []]
           five_ungrouped)"
  by code_simp

end
